theory Spec2Isabelle
  imports Main
begin

section \<open>JavaScript values\<close>

text \<open>
  The values that records, queries and patches are made of. An object is its list of
  own properties in the order in which they were created; the keys of a JavaScript
  object are distinct (\<open>distinct_keys\<close> below). Numbers are restricted to the
  integers that a double holds exactly: NaN, the infinities, signed zero and fractions
  are outside this development, and so are functions, symbols, inherited (prototype)
  properties and the rule that puts integer-like keys first when an object is
  enumerated. A string is a list of code units below 256. \<open>JUndefined\<close> is
  JavaScript's \<open>undefined\<close>: the value of a missing property, and a value a caller
  can put into a record, a query or a patch.
\<close>

datatype jsval =
    JUndefined
  | JNull
  | JBool bool
  | JNum int
  | JStr string
  | JArr "jsval list"
  | JObj "(string \<times> jsval) list"

type_synonym object = "(string \<times> jsval) list"

fun distinct_keys :: "jsval \<Rightarrow> bool" where
  "distinct_keys (JArr xs) = list_all distinct_keys xs"
| "distinct_keys (JObj obj) =
     (distinct (map fst obj) \<and> list_all (\<lambda>(k, v). distinct_keys v) obj)"
| "distinct_keys v = True"

text \<open>\<open>Object.keys(o)\<close>.\<close>

definition keys :: "object \<Rightarrow> string list" where
  "keys obj = map fst obj"

text \<open>\<open>o[key]\<close> on an object: the own property, \<open>undefined\<close> when there is none.\<close>

definition own_prop :: "object \<Rightarrow> string \<Rightarrow> jsval" where
  "own_prop obj key = (case map_of obj key of None \<Rightarrow> JUndefined | Some v \<Rightarrow> v)"

text \<open>
  \<open>o[key] = v\<close> on an object: an existing property keeps its place and gets the new
  value, a new property is added after the others.
\<close>

fun set_prop :: "object \<Rightarrow> string \<Rightarrow> jsval \<Rightarrow> object" where
  "set_prop [] key v = [(key, v)]"
| "set_prop ((k, w) # obj) key v =
     (if k = key then (k, v) # obj else (k, w) # set_prop obj key v)"

text \<open>The truthiness that \<open>||\<close> and \<open>!\<close> test.\<close>

fun truthy :: "jsval \<Rightarrow> bool" where
  "truthy JUndefined = False"
| "truthy JNull = False"
| "truthy (JBool b) = b"
| "truthy (JNum n) = (n \<noteq> 0)"
| "truthy (JStr s) = (s \<noteq> [])"
| "truthy (JArr xs) = True"
| "truthy (JObj obj) = True"

text \<open>
  \<open>a === b\<close> where \<open>a\<close> was read from a value that \<open>JSON.parse\<close> has just built and
  \<open>b\<close> from an object of the caller. Primitives are compared by value. Arrays and
  objects are compared by identity, and an array or object that the parse has just
  allocated is identical to nothing the caller holds: the comparison is false.
\<close>

fun strict_eq :: "jsval \<Rightarrow> jsval \<Rightarrow> bool" where
  "strict_eq JUndefined JUndefined = True"
| "strict_eq JNull JNull = True"
| "strict_eq (JBool a) (JBool b) = (a = b)"
| "strict_eq (JNum a) (JNum b) = (a = b)"
| "strict_eq (JStr a) (JStr b) = (a = b)"
| "strict_eq a b = False"

text \<open>
  The primitive values of JSON (null, booleans, numbers, strings): the values that a
  query can usefully ask for, since \<open>===\<close> compares them by value.
\<close>

fun is_primitive :: "jsval \<Rightarrow> bool" where
  "is_primitive JNull = True"
| "is_primitive (JBool b) = True"
| "is_primitive (JNum n) = True"
| "is_primitive (JStr s) = True"
| "is_primitive v = False"

text \<open>The values a JSON text can denote: no \<open>undefined\<close> anywhere.\<close>

fun is_json :: "jsval \<Rightarrow> bool" where
  "is_json JUndefined = False"
| "is_json (JArr xs) = list_all is_json xs"
| "is_json (JObj obj) = list_all (\<lambda>(k, v). is_json v) obj"
| "is_json v = True"

text \<open>
  The errors that the operations throw, by where they come from. \<open>Unsupported\<close> is
  not an error of the library: it marks the inputs whose behaviour is outside this
  development (a JSON text with a fraction, an exponent or a unicode escape above
  \<open>00ff\<close>; a collection element that is a string or an array).
\<close>

datatype error =
    NoStorageSelected
  | NoInsertExecuted
  | IOError
  | SyntaxError
  | TypeError
  | Unsupported

section \<open>JSON.stringify\<close>

text \<open>
  \<open>JSON.stringify\<close> and \<open>JSON.parse\<close> are built-ins of the platform; the library
  calls them and has no codec of its own. They are modelled after the ECMAScript
  definition, on the values above.
\<close>

definition hex_digit :: "nat \<Rightarrow> char" where
  "hex_digit d = (if d < 10 then char_of (48 + d) else char_of (87 + d))"

text \<open>
  A character inside a string literal: the quote and the backslash are escaped, the
  control characters are written with their short escape or as \<open>\u00XX\<close>.
\<close>

definition quote_char :: "char \<Rightarrow> string" where
  "quote_char c =
     (if c = CHR 0x22 then [CHR 0x5C, CHR 0x22]
      else if c = CHR 0x5C then [CHR 0x5C, CHR 0x5C]
      else if c = CHR 0x08 then [CHR 0x5C, CHR ''b'']
      else if c = CHR 0x0C then [CHR 0x5C, CHR ''f'']
      else if c = CHR 0x0A then [CHR 0x5C, CHR ''n'']
      else if c = CHR 0x0D then [CHR 0x5C, CHR ''r'']
      else if c = CHR 0x09 then [CHR 0x5C, CHR ''t'']
      else if (of_char c :: nat) < 32
      then [CHR 0x5C, CHR ''u'', CHR ''0'', CHR ''0'',
            hex_digit (of_char c div 16), hex_digit (of_char c mod 16)]
      else [c])"

definition quote :: "string \<Rightarrow> string" where
  "quote s = CHR 0x22 # concat (map quote_char s) @ [CHR 0x22]"

fun digits :: "nat \<Rightarrow> string" where
  "digits n =
     (if n < 10 then [char_of (48 + n)] else digits (n div 10) @ [char_of (48 + n mod 10)])"

declare digits.simps [simp del]

definition render_int :: "int \<Rightarrow> string" where
  "render_int i = (if i < 0 then CHR ''-'' # digits (nat (- i)) else digits (nat i))"

fun join :: "'a list \<Rightarrow> 'a list list \<Rightarrow> 'a list" where
  "join sep [] = []"
| "join sep [x] = x"
| "join sep (x # y # ys) = x @ sep @ join sep (y # ys)"

text \<open>
  The text of a value. A property whose value is \<open>undefined\<close> is left out of an
  object; an \<open>undefined\<close> element of an array is written \<open>null\<close>. (For \<open>undefined\<close>
  itself the built-in returns no string; every call in the library passes an array.)
\<close>

fun JSON_stringify :: "jsval \<Rightarrow> string" where
  "JSON_stringify JUndefined = ''null''"
| "JSON_stringify JNull = ''null''"
| "JSON_stringify (JBool b) = (if b then ''true'' else ''false'')"
| "JSON_stringify (JNum i) = render_int i"
| "JSON_stringify (JStr s) = quote s"
| "JSON_stringify (JArr xs) = ''['' @ join '','' (map JSON_stringify xs) @ '']''"
| "JSON_stringify (JObj obj) =
     ''{'' @ join '','' (map (\<lambda>(k, v). quote k @ '':'' @ JSON_stringify v)
                          (filter (\<lambda>(k, v). v \<noteq> JUndefined) obj)) @ ''}''"

text \<open>What \<open>JSON.stringify\<close> keeps of a value: the value that its text denotes.\<close>

fun to_json :: "jsval \<Rightarrow> jsval" where
  "to_json JUndefined = JNull"
| "to_json (JArr xs) = JArr (map to_json xs)"
| "to_json (JObj obj) =
     JObj (map (\<lambda>(k, v). (k, to_json v)) (filter (\<lambda>(k, v). v \<noteq> JUndefined) obj))"
| "to_json v = v"

section \<open>JSON.parse\<close>

subsection \<open>Tokens\<close>

datatype token =
    LBracket | RBracket | LBrace | RBrace | Comma | Colon
  | TStr string | TNum int | TTrue | TFalse | TNull

definition hex_value :: "char \<Rightarrow> nat option" where
  "hex_value c =
     (let n = of_char c :: nat in
      if 48 \<le> n \<and> n \<le> 57 then Some (n - 48)
      else if 97 \<le> n \<and> n \<le> 102 then Some (n - 87)
      else if 65 \<le> n \<and> n \<le> 70 then Some (n - 55)
      else None)"

definition hex4 :: "char \<Rightarrow> char \<Rightarrow> char \<Rightarrow> char \<Rightarrow> nat option" where
  "hex4 a b c d =
     (case (hex_value a, hex_value b, hex_value c, hex_value d) of
        (Some w, Some x, Some y, Some z) \<Rightarrow> Some (((w * 16 + x) * 16 + y) * 16 + z)
      | _ \<Rightarrow> None)"

text \<open>The character that a short escape stands for.\<close>

definition unescape :: "char \<Rightarrow> char option" where
  "unescape e =
     (if e = CHR 0x22 then Some (CHR 0x22)
      else if e = CHR 0x5C then Some (CHR 0x5C)
      else if e = CHR ''/'' then Some (CHR ''/'')
      else if e = CHR ''b'' then Some (CHR 0x08)
      else if e = CHR ''f'' then Some (CHR 0x0C)
      else if e = CHR ''n'' then Some (CHR 0x0A)
      else if e = CHR ''r'' then Some (CHR 0x0D)
      else if e = CHR ''t'' then Some (CHR 0x09)
      else None)"

fun cons_char :: "char \<Rightarrow> error + string \<times> string \<Rightarrow> error + string \<times> string" where
  "cons_char c (Inl e) = Inl e"
| "cons_char c (Inr (s, rest)) = Inr (c # s, rest)"

text \<open>
  A string literal, read from after its opening quote: the string and the text that
  follows the closing quote. A raw control character is not allowed.
\<close>

fun lex_string :: "string \<Rightarrow> error + string \<times> string" where
  "lex_string [] = Inl SyntaxError"
| "lex_string (c # cs) =
     (if c = CHR 0x22 then Inr ([], cs)
      else if c = CHR 0x5C then
        (case cs of
           [] \<Rightarrow> Inl SyntaxError
         | e # cs' \<Rightarrow>
             (if e = CHR ''u'' then
                (case cs' of
                   h1 # h2 # h3 # h4 # cs'' \<Rightarrow>
                     (case hex4 h1 h2 h3 h4 of
                        None \<Rightarrow> Inl SyntaxError
                      | Some n \<Rightarrow>
                          if n < 256 then cons_char (char_of n) (lex_string cs'')
                          else Inl Unsupported)
                 | _ \<Rightarrow> Inl SyntaxError)
              else
                (case unescape e of
                   None \<Rightarrow> Inl SyntaxError
                 | Some ch \<Rightarrow> cons_char ch (lex_string cs'))))
      else if (of_char c :: nat) < 32 then Inl SyntaxError
      else cons_char c (lex_string cs))"

definition is_digit :: "char \<Rightarrow> bool" where
  "is_digit c = (48 \<le> (of_char c :: nat) \<and> (of_char c :: nat) \<le> 57)"

definition digit_value :: "char \<Rightarrow> nat" where
  "digit_value c = of_char c - 48"

definition number_of :: "string \<Rightarrow> nat" where
  "number_of ds = foldl (\<lambda>n c. 10 * n + digit_value c) 0 ds"

text \<open>
  The integer part of a number, from its first character \<open>c\<close>: a single \<open>0\<close>, or a
  digit that is not \<open>0\<close> and the digits that follow it.
\<close>

definition lex_nat :: "char \<Rightarrow> string \<Rightarrow> error + nat \<times> string" where
  "lex_nat c cs =
     (if c = CHR ''0'' then Inr (0, cs)
      else if is_digit c
      then Inr (number_of (c # takeWhile is_digit cs), dropWhile is_digit cs)
      else Inl SyntaxError)"

text \<open>A number. One that goes on with a fraction or an exponent is outside the model.\<close>

definition lex_number :: "char \<Rightarrow> string \<Rightarrow> error + int \<times> string" where
  "lex_number c cs =
     (case (if c = CHR ''-''
            then (case cs of
                    [] \<Rightarrow> Inl SyntaxError
                  | d # ds \<Rightarrow>
                      (case lex_nat d ds of
                         Inl e \<Rightarrow> Inl e
                       | Inr (n, rest) \<Rightarrow> Inr (- int n, rest)))
            else (case lex_nat c cs of
                    Inl e \<Rightarrow> Inl e
                  | Inr (n, rest) \<Rightarrow> Inr (int n, rest))) of
        Inl e \<Rightarrow> Inl e
      | Inr (i, rest) \<Rightarrow>
          (case rest of
             [] \<Rightarrow> Inr (i, rest)
           | x # xs \<Rightarrow>
               if x = CHR ''.'' \<or> x = CHR ''e'' \<or> x = CHR ''E'' then Inl Unsupported
               else Inr (i, rest)))"

fun cons_token :: "token \<Rightarrow> error + token list \<Rightarrow> error + token list" where
  "cons_token t (Inl e) = Inl e"
| "cons_token t (Inr ts) = Inr (t # ts)"

definition is_space :: "char \<Rightarrow> bool" where
  "is_space c = (c = CHR '' '' \<or> c = CHR 0x09 \<or> c = CHR 0x0A \<or> c = CHR 0x0D)"

text \<open>The tokens of a text.\<close>

function lex :: "string \<Rightarrow> error + token list" where
  "lex [] = Inr []"
| "lex (c # cs) =
     (if is_space c then lex cs
      else if c = CHR ''['' then cons_token LBracket (lex cs)
      else if c = CHR '']'' then cons_token RBracket (lex cs)
      else if c = CHR ''{'' then cons_token LBrace (lex cs)
      else if c = CHR ''}'' then cons_token RBrace (lex cs)
      else if c = CHR '','' then cons_token Comma (lex cs)
      else if c = CHR '':'' then cons_token Colon (lex cs)
      else if c = CHR 0x22 then
        (case lex_string cs of
           Inl e \<Rightarrow> Inl e
         | Inr (s, rest) \<Rightarrow> cons_token (TStr s) (lex rest))
      else if c = CHR ''t'' then
        (if take 3 cs = ''rue'' then cons_token TTrue (lex (drop 3 cs)) else Inl SyntaxError)
      else if c = CHR ''f'' then
        (if take 4 cs = ''alse'' then cons_token TFalse (lex (drop 4 cs)) else Inl SyntaxError)
      else if c = CHR ''n'' then
        (if take 3 cs = ''ull'' then cons_token TNull (lex (drop 3 cs)) else Inl SyntaxError)
      else if c = CHR ''-'' \<or> is_digit c then
        (case lex_number c cs of
           Inl e \<Rightarrow> Inl e
         | Inr (i, rest) \<Rightarrow> cons_token (TNum i) (lex rest))
      else Inl SyntaxError)"
  by pat_completeness auto
termination
proof (relation "measure length", goal_cases)
  have str: "length rest < length cs" if "lex_string cs = Inr (s, rest)" for cs s rest
    using that
  proof (induction cs arbitrary: s rule: lex_string.induct)
    case 1
    then show ?case by simp
  next
    case (2 c cs)
    have inv: "\<exists>s'. r = Inr (s', rest)" if "cons_char c' r = Inr (s, rest)" for r c'
      using that by (cases r) auto
    show ?case
      using "2.prems" "2.IH"
      by (fastforce simp: less_Suc_eq split: if_splits list.splits option.splits
          dest!: inv)
  qed
  have nat: "length rest \<le> length cs" if "lex_nat c cs = Inr (n, rest)" for c cs n rest
    using that by (auto simp: lex_nat_def length_dropWhile_le split: if_splits)
  have num: "length rest \<le> length cs" if "lex_number c cs = Inr (i, rest)" for c cs i rest
    using that
    by (fastforce simp: lex_number_def split: if_splits list.splits sum.splits dest: nat)
  {
    case 1
    show ?case by simp
  next
    case (2 c cs)
    then show ?case by simp
  next
    case (3 c cs)
    then show ?case by simp
  next
    case (4 c cs)
    then show ?case by simp
  next
    case (5 c cs)
    then show ?case by simp
  next
    case (6 c cs)
    then show ?case by simp
  next
    case (7 c cs)
    then show ?case by simp
  next
    case (8 c cs)
    then show ?case by simp
  next
    case (9 c cs x s rest)
    then show ?case using str [of cs s rest] by simp
  next
    case (10 c cs)
    then show ?case by simp
  next
    case (11 c cs)
    then show ?case by simp
  next
    case (12 c cs)
    then show ?case by simp
  next
    case (13 c cs x i rest)
    then show ?case using num [of c cs i rest] by simp
  }
qed

subsection \<open>Values\<close>

fun scalar :: "token \<Rightarrow> jsval option" where
  "scalar TNull = Some JNull"
| "scalar TTrue = Some (JBool True)"
| "scalar TFalse = Some (JBool False)"
| "scalar (TNum i) = Some (JNum i)"
| "scalar (TStr s) = Some (JStr s)"
| "scalar t = None"

text \<open>
  What follows an element of an array or a member of an object: a comma (another item
  follows) or the closing token.
\<close>

fun after_item :: "token \<Rightarrow> token list \<Rightarrow> (bool \<times> token list) option" where
  "after_item close [] = None"
| "after_item close (t # ts) =
     (if t = Comma then Some (True, ts) else if t = close then Some (False, ts) else None)"

fun member_key :: "token list \<Rightarrow> (string \<times> token list) option" where
  "member_key (TStr k # Colon # ts) = Some (k, ts)"
| "member_key ts = None"

text \<open>
  The parser, by recursive descent. The first argument bounds the number of calls;
  \<open>None\<close> is the answer of a call that has run out of them. A key that comes again
  in an object keeps its place and takes the later value.
\<close>

fun parse_value :: "nat \<Rightarrow> token list \<Rightarrow> (error + jsval \<times> token list) option"
  and parse_elements ::
    "nat \<Rightarrow> jsval list \<Rightarrow> token list \<Rightarrow> (error + jsval \<times> token list) option"
  and parse_members ::
    "nat \<Rightarrow> object \<Rightarrow> token list \<Rightarrow> (error + jsval \<times> token list) option"
where
  "parse_value 0 ts = None"
| "parse_value (Suc n) [] = Some (Inl SyntaxError)"
| "parse_value (Suc n) (t # ts) =
     (case scalar t of
        Some v \<Rightarrow> Some (Inr (v, ts))
      | None \<Rightarrow>
          if t = LBracket then
            (if take 1 ts = [RBracket] then Some (Inr (JArr [], drop 1 ts))
             else parse_elements n [] ts)
          else if t = LBrace then
            (if take 1 ts = [RBrace] then Some (Inr (JObj [], drop 1 ts))
             else parse_members n [] ts)
          else Some (Inl SyntaxError))"
| "parse_elements 0 acc ts = None"
| "parse_elements (Suc n) acc ts =
     (case parse_value n ts of
        None \<Rightarrow> None
      | Some (Inl e) \<Rightarrow> Some (Inl e)
      | Some (Inr (v, ts')) \<Rightarrow>
          (case after_item RBracket ts' of
             None \<Rightarrow> Some (Inl SyntaxError)
           | Some (again, ts'') \<Rightarrow>
               if again then parse_elements n (acc @ [v]) ts''
               else Some (Inr (JArr (acc @ [v]), ts''))))"
| "parse_members 0 obj ts = None"
| "parse_members (Suc n) obj ts =
     (case member_key ts of
        None \<Rightarrow> Some (Inl SyntaxError)
      | Some (k, ts') \<Rightarrow>
          (case parse_value n ts' of
             None \<Rightarrow> None
           | Some (Inl e) \<Rightarrow> Some (Inl e)
           | Some (Inr (v, ts'')) \<Rightarrow>
               (case after_item RBrace ts'' of
                  None \<Rightarrow> Some (Inl SyntaxError)
                | Some (again, ts3) \<Rightarrow>
                    if again then parse_members n (set_prop obj k v) ts3
                    else Some (Inr (JObj (set_prop obj k v), ts3)))))"

text \<open>
  \<open>JSON.parse(s)\<close>: one value and nothing after it. The bound given to the parser is
  never reached (lemma \<open>parse_value_enough\<close>).
\<close>

definition JSON_parse :: "string \<Rightarrow> error + jsval" where
  "JSON_parse s =
     (case lex s of
        Inl e \<Rightarrow> Inl e
      | Inr ts \<Rightarrow>
          (case parse_value (2 * length ts + 1) ts of
             None \<Rightarrow> Inl SyntaxError
           | Some (Inl e) \<Rightarrow> Inl e
           | Some (Inr (v, rest)) \<Rightarrow> if rest = [] then Inr v else Inl SyntaxError))"

subsection \<open>The tokens of a rendered value\<close>

text \<open>
  For the proofs: where a number can end, the tokens of the text of a value, and
  tokens put in front of a result of the lexer.
\<close>

definition number_end :: "string \<Rightarrow> bool" where
  "number_end rest =
     (case rest of
        [] \<Rightarrow> True
      | x # xs \<Rightarrow> \<not> is_digit x \<and> x \<noteq> CHR ''.'' \<and> x \<noteq> CHR ''e'' \<and> x \<noteq> CHR ''E'')"

fun tokens :: "jsval \<Rightarrow> token list" where
  "tokens JUndefined = [TNull]"
| "tokens JNull = [TNull]"
| "tokens (JBool b) = [if b then TTrue else TFalse]"
| "tokens (JNum i) = [TNum i]"
| "tokens (JStr s) = [TStr s]"
| "tokens (JArr xs) = LBracket # join [Comma] (map tokens xs) @ [RBracket]"
| "tokens (JObj obj) =
     LBrace # join [Comma] (map (\<lambda>(k, v). TStr k # Colon # tokens v)
                              (filter (\<lambda>(k, v). v \<noteq> JUndefined) obj)) @ [RBrace]"

fun prepend :: "token list \<Rightarrow> error + token list \<Rightarrow> error + token list" where
  "prepend ts (Inl e) = Inl e"
| "prepend ts (Inr us) = Inr (ts @ us)"

section \<open>The file system\<close>

text \<open>
  The files, by path, and for each path whether a write to it succeeds (the folder is
  there, the permissions allow it, the disk has room); a write that fails leaves the
  file as it was. \<open>pending\<close> holds the writes that \<open>fs.writeFile\<close> has been asked
  for and that have not been performed yet: the asynchronous write is completed later,
  from the event loop, after the code that asked for it has returned. (Until then the
  file can also be seen empty, once it has been opened for writing; that state is not
  modelled.)
\<close>

record filesystem =
  files :: "string \<Rightarrow> string option"
  writable :: "string \<Rightarrow> bool"
  pending :: "(string \<times> string) list"

definition existsSync :: "string \<Rightarrow> filesystem \<Rightarrow> bool" where
  "existsSync path fs = (files fs path \<noteq> None)"

definition readFileSync :: "string \<Rightarrow> filesystem \<Rightarrow> error + string" where
  "readFileSync path fs = (case files fs path of None \<Rightarrow> Inl IOError | Some t \<Rightarrow> Inr t)"

definition writeFileSync :: "string \<Rightarrow> string \<Rightarrow> filesystem \<Rightarrow> error + filesystem" where
  "writeFileSync path t fs =
     (if writable fs path then Inr (fs\<lparr>files := (files fs)(path \<mapsto> t)\<rparr>) else Inl IOError)"

text \<open>
  \<open>fs.writeFile(path, t, callback)\<close> returns at once; nothing has been written and
  nothing has failed yet.
\<close>

definition writeFile :: "string \<Rightarrow> string \<Rightarrow> filesystem \<Rightarrow> filesystem" where
  "writeFile path t fs = fs\<lparr>pending := pending fs @ [(path, t)]\<rparr>"

text \<open>
  The event loop performs the oldest pending write and calls its callback. The
  callback of \<open>update\<close> and \<open>delete\<close> throws the error it is given; that exception is
  raised in the event loop, where no caller of the library can catch it. The second
  component is that uncaught exception.
\<close>

definition complete_write :: "filesystem \<Rightarrow> filesystem \<times> error option" where
  "complete_write fs =
     (case pending fs of
        [] \<Rightarrow> (fs, None)
      | (path, t) # rest \<Rightarrow>
          (case writeFileSync path t (fs\<lparr>pending := rest\<rparr>) of
             Inl e \<Rightarrow> (fs\<lparr>pending := rest\<rparr>, Some e)
           | Inr fs' \<Rightarrow> (fs', None)))"

section \<open>The database handle\<close>

text \<open>
  The fields of class \<open>jsonFileDB\<close>. \<open>None\<close> is \<open>null\<close>. The field \<open>storageData\<close> is
  left out: \<open>get\<close> assigns it and nothing reads it.
\<close>

record handle =
  dbPath :: string
  storage :: "string option"
  storagePath :: "string option"
  lastInsertId :: jsval

text \<open>The handle as the field initialisers leave it, for the database folder \<open>path\<close>.\<close>

definition new_handle :: "string \<Rightarrow> handle" where
  "new_handle path = \<lparr>dbPath = path, storage = None, storagePath = None, lastInsertId = JNull\<rparr>"

text \<open>
  An operation takes the handle and the file system and returns its result, or the
  error it throws, with the handle and the file system as it leaves them. What an
  operation has assigned before it throws stays assigned.
\<close>

type_synonym 'a outcome = "(error + 'a) \<times> handle \<times> filesystem"

definition setStorage :: "string \<Rightarrow> handle \<Rightarrow> filesystem \<Rightarrow> unit outcome" where
  "setStorage s h fs =
     (let path = dbPath h @ ''/'' @ s @ ''.json'';
          h' = h\<lparr>storage := Some s, storagePath := Some path\<rparr>
      in if \<not> existsSync path fs
         then (case writeFileSync path ''[]'' fs of
                 Inl e \<Rightarrow> (Inl e, h', fs)
               | Inr fs' \<Rightarrow> (Inr (), h', fs'))
         else (Inr (), h', fs))"

text \<open>
  \<open>get(storage = "")\<close>. The file is read and parsed; whatever value the text denotes is
  returned. (The source then opens and closes the file once more, which changes
  nothing.) A path that is still \<open>null\<close> makes \<open>readFileSync\<close> throw a TypeError.
\<close>

definition get :: "string \<Rightarrow> handle \<Rightarrow> filesystem \<Rightarrow> jsval outcome" where
  "get s h fs =
     (case (if s \<noteq> [] then setStorage s h fs else (Inr (), h, fs)) of
        (Inl e, h', fs') \<Rightarrow> (Inl e, h', fs')
      | (Inr u, h', fs') \<Rightarrow>
          (case storagePath h' of
             None \<Rightarrow> (Inl TypeError, h', fs')
           | Some path \<Rightarrow>
               (case readFileSync path fs' of
                  Inl e \<Rightarrow> (Inl e, h', fs')
                | Inr t \<Rightarrow>
                    (case JSON_parse t of
                       Inl e \<Rightarrow> (Inl e, h', fs')
                     | Inr data \<Rightarrow> (Inr data, h', fs')))))"

section \<open>insert and insertId\<close>

text \<open>\<open>s.substring(a, b)\<close> for \<open>a \<le> b\<close>.\<close>

definition substring :: "nat \<Rightarrow> nat \<Rightarrow> string \<Rightarrow> string" where
  "substring a b s = take (b - a) (drop a s)"

text \<open>
  The generated id. The two strings are what \<open>Math.random().toString(36)\<close> gave for
  the two draws: \<open>0.\<close> and base-36 digits, or \<open>0\<close> alone when the draw is zero.
\<close>

definition generated_id :: "string \<times> string \<Rightarrow> string" where
  "generated_id rnd = substring 2 15 (fst rnd) @ substring 2 15 (snd rnd)"

text \<open>
  \<open>insertData.id || Math.random()...\<close>: the id of the record when it is truthy, the
  generated id otherwise (\<open>||\<close> draws no random number when its left side is truthy).
\<close>

definition assigned_id :: "object \<Rightarrow> string \<times> string \<Rightarrow> jsval" where
  "assigned_id insertData rnd =
     (if truthy (own_prop insertData ''id'')
      then own_prop insertData ''id''
      else JStr (generated_id rnd))"

text \<open>
  \<open>insert\<close> is an async function with one \<open>await\<close>. \<open>insert_begin\<close> is what runs when
  it is called, up to the \<open>await\<close> of \<open>this.get()\<close> (whose body has run by then);
  \<open>insert_resume\<close> is what runs when it is resumed, with the record and the array that
  \<open>get\<close> returned. Other code can run between the two.
\<close>

definition insert_begin ::
  "object \<Rightarrow> string \<times> string \<Rightarrow> handle \<Rightarrow> filesystem \<Rightarrow> (object \<times> jsval) outcome" where
  "insert_begin insertData rnd h fs =
     (if storage h = None \<or> storage h = Some []
      then (Inl NoStorageSelected, h, fs)
      else
        let id = assigned_id insertData rnd;
            insertData' = set_prop insertData ''id'' id;
            h' = h\<lparr>lastInsertId := id\<rparr>
        in (case get [] h' fs of
              (Inl e, h'', fs') \<Rightarrow> (Inl e, h'', fs')
            | (Inr data, h'', fs') \<Rightarrow> (Inr (insertData', data), h'', fs')))"

definition insert_resume :: "object \<times> jsval \<Rightarrow> handle \<Rightarrow> filesystem \<Rightarrow> object outcome" where
  "insert_resume k h fs =
     (case snd k of
        JArr items \<Rightarrow>
          (case storagePath h of
             None \<Rightarrow> (Inl TypeError, h, fs)
           | Some path \<Rightarrow>
               (case writeFileSync path (JSON_stringify (JArr (items @ [JObj (fst k)]))) fs of
                  Inl e \<Rightarrow> (Inl e, h, fs)
                | Inr fs' \<Rightarrow> (Inr (fst k), h, fs')))
      | _ \<Rightarrow> (Inl TypeError, h, fs))"

text \<open>\<open>await db.insert(insertData)\<close>: the call run to its end with nothing in between.\<close>

definition insert_db :: "object \<Rightarrow> string \<times> string \<Rightarrow> handle \<Rightarrow> filesystem \<Rightarrow> object outcome" where
  "insert_db insertData rnd h fs =
     (case insert_begin insertData rnd h fs of
        (Inl e, h', fs') \<Rightarrow> (Inl e, h', fs')
      | (Inr k, h', fs') \<Rightarrow> insert_resume k h' fs')"

definition insertId :: "handle \<Rightarrow> error + jsval" where
  "insertId h = (if \<not> truthy (lastInsertId h) then Inl NoInsertExecuted else Inr (lastInsertId h))"

section \<open>The query matcher, find, update and delete\<close>

text \<open>
  \<open>item[key]\<close> on an element of the parsed array. Reading a property of \<open>null\<close>
  throws a TypeError; a number or a boolean has no own property. Elements that are
  strings or arrays have own properties (\<open>length\<close>, the indices) that are not
  modelled: the outcome \<open>Unsupported\<close> marks them.
\<close>

fun item_get :: "jsval \<Rightarrow> string \<Rightarrow> error + jsval" where
  "item_get (JObj obj) key = Inr (own_prop obj key)"
| "item_get JNull key = Inl TypeError"
| "item_get JUndefined key = Inl TypeError"
| "item_get (JBool b) key = Inr JUndefined"
| "item_get (JNum n) key = Inr JUndefined"
| "item_get (JStr s) key = Inl Unsupported"
| "item_get (JArr xs) key = Inl Unsupported"

text \<open>
  \<open>item[key] = v\<close>. A class body is strict mode code: the assignment throws a
  TypeError on \<open>null\<close> and on every primitive.
\<close>

fun item_set :: "jsval \<Rightarrow> string \<Rightarrow> jsval \<Rightarrow> error + jsval" where
  "item_set (JObj obj) key v = Inr (JObj (set_prop obj key v))"
| "item_set (JArr xs) key v = Inl Unsupported"
| "item_set item key v = Inl TypeError"

text \<open>
  \<open>ks.every((key) => item[key] === query[key])\<close>: left to right, stopping at the
  first key that fails.
\<close>

fun every_key :: "jsval \<Rightarrow> object \<Rightarrow> string list \<Rightarrow> error + bool" where
  "every_key item query [] = Inr True"
| "every_key item query (key # ks) =
     (case item_get item key of
        Inl e \<Rightarrow> Inl e
      | Inr v \<Rightarrow> if strict_eq v (own_prop query key) then every_key item query ks else Inr False)"

definition matches :: "jsval \<Rightarrow> object \<Rightarrow> error + bool" where
  "matches item query = every_key item query (keys query)"

text \<open>\<open>data.filter(...)\<close> with a callback that can throw.\<close>

fun filter_items :: "(jsval \<Rightarrow> error + bool) \<Rightarrow> jsval list \<Rightarrow> error + jsval list" where
  "filter_items p [] = Inr []"
| "filter_items p (item # items) =
     (case p item of
        Inl e \<Rightarrow> Inl e
      | Inr b \<Rightarrow>
          (case filter_items p items of
             Inl e \<Rightarrow> Inl e
           | Inr r \<Rightarrow> Inr (if b then item # r else r)))"

definition find_db :: "object \<Rightarrow> handle \<Rightarrow> filesystem \<Rightarrow> (jsval list) outcome" where
  "find_db query h fs =
     (case get [] h fs of
        (Inl e, h', fs') \<Rightarrow> (Inl e, h', fs')
      | (Inr data, h', fs') \<Rightarrow>
          (case data of
             JArr items \<Rightarrow>
               (case filter_items (\<lambda>item. matches item query) items of
                  Inl e \<Rightarrow> (Inl e, h', fs')
                | Inr r \<Rightarrow> (Inr r, h', fs'))
           | _ \<Rightarrow> (Inl TypeError, h', fs')))"

text \<open>\<open>Object.keys(updateData).forEach((key) => { item[key] = updateData[key]; })\<close>\<close>

fun assign_keys :: "jsval \<Rightarrow> object \<Rightarrow> string list \<Rightarrow> error + jsval" where
  "assign_keys item updateData [] = Inr item"
| "assign_keys item updateData (key # ks) =
     (case item_set item key (own_prop updateData key) of
        Inl e \<Rightarrow> Inl e
      | Inr item' \<Rightarrow> assign_keys item' updateData ks)"

text \<open>The \<open>data.forEach\<close> of \<open>update\<close>, on the elements of the array.\<close>

fun update_items :: "object \<Rightarrow> object \<Rightarrow> jsval list \<Rightarrow> error + jsval list" where
  "update_items query updateData [] = Inr []"
| "update_items query updateData (item # items) =
     (case matches item query of
        Inl e \<Rightarrow> Inl e
      | Inr b \<Rightarrow>
          (case (if b then assign_keys item updateData (keys updateData) else Inr item) of
             Inl e \<Rightarrow> Inl e
           | Inr item' \<Rightarrow>
               (case update_items query updateData items of
                  Inl e \<Rightarrow> Inl e
                | Inr r \<Rightarrow> Inr (item' # r))))"

text \<open>
  \<open>update\<close> asks for the write with \<open>fs.writeFile\<close> and returns the array without
  waiting for it.
\<close>

definition update :: "object \<Rightarrow> object \<Rightarrow> handle \<Rightarrow> filesystem \<Rightarrow> jsval outcome" where
  "update query updateData h fs =
     (case get [] h fs of
        (Inl e, h', fs') \<Rightarrow> (Inl e, h', fs')
      | (Inr data, h', fs') \<Rightarrow>
          (case data of
             JArr items \<Rightarrow>
               (case update_items query updateData items of
                  Inl e \<Rightarrow> (Inl e, h', fs')
                | Inr items' \<Rightarrow>
                    (case storagePath h' of
                       None \<Rightarrow> (Inl TypeError, h', fs')
                     | Some path \<Rightarrow>
                         (Inr (JArr items'), h',
                          writeFile path (JSON_stringify (JArr items')) fs')))
           | _ \<Rightarrow> (Inl TypeError, h', fs')))"

text \<open>
  The \<open>data.filter\<close> of \<open>delete\<close>: the elements that matched (\<open>deletedData\<close>) and the
  elements that did not (\<open>filteredData\<close>).
\<close>

fun delete_items :: "object \<Rightarrow> jsval list \<Rightarrow> error + (jsval list \<times> jsval list)" where
  "delete_items query [] = Inr ([], [])"
| "delete_items query (item # items) =
     (case matches item query of
        Inl e \<Rightarrow> Inl e
      | Inr isMatched \<Rightarrow>
          (case delete_items query items of
             Inl e \<Rightarrow> Inl e
           | Inr (deletedData, filteredData) \<Rightarrow>
               Inr (if isMatched then (item # deletedData, filteredData)
                    else (deletedData, item # filteredData))))"

definition delete :: "object \<Rightarrow> handle \<Rightarrow> filesystem \<Rightarrow> (jsval list) outcome" where
  "delete query h fs =
     (case get [] h fs of
        (Inl e, h', fs') \<Rightarrow> (Inl e, h', fs')
      | (Inr data, h', fs') \<Rightarrow>
          (case data of
             JArr items \<Rightarrow>
               (case delete_items query items of
                  Inl e \<Rightarrow> (Inl e, h', fs')
                | Inr (deletedData, filteredData) \<Rightarrow>
                    (case storagePath h' of
                       None \<Rightarrow> (Inl TypeError, h', fs')
                     | Some path \<Rightarrow>
                         (Inr deletedData, h',
                          writeFile path (JSON_stringify (JArr filteredData)) fs')))
           | _ \<Rightarrow> (Inl TypeError, h', fs')))"

section \<open>Several inserts\<close>

text \<open>
  Inserts awaited one after the other: each call runs to its end before the next one
  starts. The results are those of the calls, in order.
\<close>

fun insert_each ::
  "(object \<times> string \<times> string) list \<Rightarrow> handle \<Rightarrow> filesystem \<Rightarrow>
     (error + object) list \<times> handle \<times> filesystem" where
  "insert_each [] h fs = ([], h, fs)"
| "insert_each ((insertData, rnd) # calls) h fs =
     (case insert_db insertData rnd h fs of
        (r, h', fs') \<Rightarrow>
          (case insert_each calls h' fs' of
             (rs, h'', fs'') \<Rightarrow> (r # rs, h'', fs'')))"

text \<open>
  Inserts started together, as in \<open>Promise.all(records.map((r) => db.insert(r)))\<close>.
  Each call runs up to its \<open>await\<close> when it is made; the continuations are queued in
  that order and run, each to its end, once the calling code has given up control.
\<close>

fun begin_all ::
  "(object \<times> string \<times> string) list \<Rightarrow> handle \<Rightarrow> filesystem \<Rightarrow>
     (error + object \<times> jsval) list \<times> handle \<times> filesystem" where
  "begin_all [] h fs = ([], h, fs)"
| "begin_all ((insertData, rnd) # calls) h fs =
     (case insert_begin insertData rnd h fs of
        (r, h', fs') \<Rightarrow>
          (case begin_all calls h' fs' of
             (rs, h'', fs'') \<Rightarrow> (r # rs, h'', fs'')))"

fun resume_all ::
  "(error + object \<times> jsval) list \<Rightarrow> handle \<Rightarrow> filesystem \<Rightarrow>
     (error + object) list \<times> handle \<times> filesystem" where
  "resume_all [] h fs = ([], h, fs)"
| "resume_all (Inl e # ks) h fs =
     (case resume_all ks h fs of (rs, h', fs') \<Rightarrow> (Inl e # rs, h', fs'))"
| "resume_all (Inr k # ks) h fs =
     (case insert_resume k h fs of
        (r, h', fs') \<Rightarrow>
          (case resume_all ks h' fs' of
             (rs, h'', fs'') \<Rightarrow> (r # rs, h'', fs'')))"

definition insert_together ::
  "(object \<times> string \<times> string) list \<Rightarrow> handle \<Rightarrow> filesystem \<Rightarrow>
     (error + object) list \<times> handle \<times> filesystem" where
  "insert_together calls h fs =
     (case begin_all calls h fs of (ks, h', fs') \<Rightarrow> resume_all ks h' fs')"

section \<open>Examples\<close>

text \<open>
  The handle that \<open>setStorage("users")\<close> leaves for the database folder \<open>db\<close>, a
  disk that holds the one file \<open>db/users.json\<close> with the text \<open>t\<close>, and the same
  disk when nothing can be written to it.
\<close>

definition users_handle :: handle where
  "users_handle =
     \<lparr>dbPath = ''db'', storage = Some ''users'', storagePath = Some ''db/users.json'',
      lastInsertId = JNull\<rparr>"

definition disk :: "string \<Rightarrow> filesystem" where
  "disk t = \<lparr>files = [''db/users.json'' \<mapsto> t], writable = (\<lambda>path. True), pending = []\<rparr>"

definition readonly_disk :: "string \<Rightarrow> filesystem" where
  "readonly_disk t =
     \<lparr>files = [''db/users.json'' \<mapsto> t], writable = (\<lambda>path. False), pending = []\<rparr>"

text \<open>The texts of some collection files.\<close>

definition john_28 :: string where
  \<open>john_28 = ''[{"id":1,"name":"John","age":28}]''\<close>

definition john_29 :: string where
  \<open>john_29 = ''[{"id":1,"name":"John","age":29}]''\<close>

definition two_records :: string where
  \<open>two_records = ''[{"id":1,"age":29},{"id":2,"age":30}]''\<close>

definition second_record :: string where
  \<open>second_record = ''[{"id":2,"age":30}]''\<close>

definition one_record :: string where
  \<open>one_record = ''[{"id":1,"age":28}]''\<close>

definition one_record_29 :: string where
  \<open>one_record_29 = ''[{"id":1,"age":29}]''\<close>

definition record_x :: string where
  \<open>record_x = ''[{"id":"x"}]''\<close>

definition record_b :: string where
  \<open>record_b = ''[{"id":"b"}]''\<close>

definition records_a_b :: string where
  \<open>records_a_b = ''[{"id":"a"},{"id":"b"}]''\<close>

definition generated_a :: string where
  \<open>generated_a = ''[{"id":"4fzyo82mvyrk1x9qh3u0zd","name":"a"}]''\<close>


section \<open>The codec\<close>

subsection \<open>Strings and numbers\<close>

lemma hex_value_hex_digit: "d < 16 \<Longrightarrow> hex_value (hex_digit d) = Some d"
  unfolding hex_value_def hex_digit_def Let_def
  by (auto simp: of_char_of [where ?'a = nat] )

lemma hex_value_zero: "hex_value (CHR ''0'') = Some 0"
  by (simp add: hex_value_def)

lemma hex4_control:
  assumes "n < 32"
  shows "hex4 (CHR ''0'') (CHR ''0'') (hex_digit (n div 16)) (hex_digit (n mod 16)) = Some n"
proof -
  from assms have "n div 16 < 16" by simp
  then have a: "hex_value (hex_digit (n div 16)) = Some (n div 16)"
    by (rule hex_value_hex_digit)
  have b: "hex_value (hex_digit (n mod 16)) = Some (n mod 16)"
    by (rule hex_value_hex_digit) simp
  show ?thesis by (simp add: hex4_def hex_value_zero a b)
qed

lemma lex_string_quote_char:
  "lex_string (quote_char c @ cs) = cons_char c (lex_string cs)"
proof (cases "(of_char c :: nat) < 32")
  case True
  then have h: "hex4 (CHR ''0'') (CHR ''0'') (hex_digit (of_char c div 16))
      (hex_digit (of_char c mod 16)) = Some (of_char c)"
    by (rule hex4_control)
  from True have small: "(of_char c :: nat) < 256" by simp
  show ?thesis
    using True small h by (auto simp: quote_char_def unescape_def)
next
  case False
  then show ?thesis
    by (auto simp: quote_char_def unescape_def)
qed

lemma lex_string_quoted:
  "lex_string (concat (map quote_char s) @ CHR 0x22 # rest) = Inr (s, rest)"
  by (induction s) (simp_all add: lex_string_quote_char)

lemma digit_char: "d < 10 \<Longrightarrow> is_digit (char_of (48 + d)) \<and> digit_value (char_of (48 + d)) = d"
  by (simp add: is_digit_def digit_value_def)

lemma digit_char_zero: "(d::nat) < 10 \<Longrightarrow> (char_of (48 + d) = CHR ''0'') = (d = 0)"
proof
  assume d: "d < 10" and "char_of (48 + d) = CHR ''0''"
  then have "(of_char (char_of (48 + d) :: char) :: nat) = of_char (CHR ''0'')" by simp
  with d show "d = 0" by simp
next
  assume "d < 10" "d = 0"
  moreover have "char_of (48::nat) = CHR ''0''"
    by (rule injD [OF inj_of_char [where ?'a = nat]]) simp
  ultimately show "char_of (48 + d) = CHR ''0''" by simp
qed

lemma digits_all: "list_all is_digit (digits n)"
proof (induction n rule: digits.induct)
  case (1 n)
  then show ?case
    by (subst digits.simps) (auto simp: digit_char)
qed

lemma number_of_snoc: "number_of (ds @ [c]) = 10 * number_of ds + digit_value c"
  by (simp add: number_of_def)

lemma number_of_digits: "number_of (digits n) = n"
proof (induction n rule: digits.induct)
  case (1 n)
  show ?case
  proof (cases "n < 10")
    case True
    then show ?thesis
      by (subst digits.simps) (simp add: number_of_def digit_char)
  next
    case False
    then have "number_of (digits n) = 10 * number_of (digits (n div 10)) + n mod 10"
      by (subst digits.simps) (simp add: number_of_snoc digit_char)
    with False 1 show ?thesis by simp
  qed
qed

lemma digits_Cons: "\<exists>d ds. digits n = d # ds \<and> is_digit d \<and> (d = CHR ''0'' \<longrightarrow> n = 0 \<and> ds = [])"
proof (induction n rule: digits.induct)
  case (1 n)
  show ?case
  proof (cases "n < 10")
    case True
    then show ?thesis
      by (subst digits.simps) (simp add: digit_char digit_char_zero)
  next
    case False
    with 1 obtain d ds where d: "digits (n div 10) = d # ds" "is_digit d"
      "d = CHR ''0'' \<longrightarrow> n div 10 = 0 \<and> ds = []"
      by blast
    from False have "n div 10 \<noteq> 0" by simp
    with d(3) have "d \<noteq> CHR ''0''" by blast
    with False d show ?thesis
      by (subst digits.simps) simp
  qed
qed

lemma takeWhile_digits:
  assumes "list_all is_digit ds" and "number_end rest"
  shows "takeWhile is_digit (ds @ rest) = ds" and "dropWhile is_digit (ds @ rest) = rest"
proof -
  from assms(2) have "takeWhile is_digit rest = []" "dropWhile is_digit rest = rest"
    by (auto simp: number_end_def split: list.splits)
  with assms(1) show "takeWhile is_digit (ds @ rest) = ds" "dropWhile is_digit (ds @ rest) = rest"
    by (simp_all add: list_all_iff takeWhile_append2 dropWhile_append2)
qed

lemma lex_nat_digits:
  assumes "digits n = d # ds" and "number_end rest"
  shows "lex_nat d (ds @ rest) = Inr (n, rest)"
proof -
  from digits_Cons [of n] assms(1)
  have d: "is_digit d" "d = CHR ''0'' \<longrightarrow> n = 0 \<and> ds = []" by auto
  from digits_all [of n] assms(1) have ds: "list_all is_digit ds" by simp
  from number_of_digits [of n] assms(1) have n: "number_of (d # ds) = n" by simp
  show ?thesis
    using d ds n assms(2) by (auto simp: lex_nat_def takeWhile_digits)
qed

lemma lex_number_render:
  assumes "render_int i = c # cs" and "number_end rest"
  shows "lex_number c (cs @ rest) = Inr (i, rest)"
proof (cases "i < 0")
  case True
  with assms(1) have c: "c = CHR ''-''" and cs: "digits (nat (- i)) = cs"
    by (simp_all add: render_int_def)
  from digits_Cons [of "nat (- i)"] cs obtain d ds where d: "cs = d # ds" by auto
  with cs have "lex_nat d (ds @ rest) = Inr (nat (- i), rest)"
    using assms(2) by (intro lex_nat_digits) simp_all
  with True c d assms(2) show ?thesis
    by (auto simp: lex_number_def number_end_def split: list.splits)
next
  case False
  with assms(1) have cs: "digits (nat i) = c # cs"
    by (simp add: render_int_def)
  from digits_Cons [of "nat i"] cs have "is_digit c" by auto
  then have "c \<noteq> CHR ''-''" by (auto simp: is_digit_def)
  moreover from cs have "lex_nat c (cs @ rest) = Inr (nat i, rest)"
    using assms(2) by (rule lex_nat_digits)
  ultimately show ?thesis
    using False assms(2) by (auto simp: lex_number_def number_end_def split: list.splits)
qed

subsection \<open>The lexer on the text of a value\<close>

lemma prepend_Nil: "prepend [] r = r"
  by (cases r) simp_all

lemma prepend_Cons: "prepend (t # ts) r = cons_token t (prepend ts r)"
  by (cases r) simp_all

lemma prepend_append: "prepend (ts @ us) r = prepend ts (prepend us r)"
  by (cases r) simp_all

lemma lex_punct:
  "lex (CHR ''['' # cs) = cons_token LBracket (lex cs)"
  "lex (CHR '']'' # cs) = cons_token RBracket (lex cs)"
  "lex (CHR ''{'' # cs) = cons_token LBrace (lex cs)"
  "lex (CHR ''}'' # cs) = cons_token RBrace (lex cs)"
  "lex (CHR '','' # cs) = cons_token Comma (lex cs)"
  "lex (CHR '':'' # cs) = cons_token Colon (lex cs)"
  by (simp_all add: is_space_def)

lemma lex_literal:
  "lex (''null'' @ cs) = cons_token TNull (lex cs)"
  "lex (''true'' @ cs) = cons_token TTrue (lex cs)"
  "lex (''false'' @ cs) = cons_token TFalse (lex cs)"
  by (simp_all add: is_space_def)

lemma lex_quote: "lex (quote s @ cs) = cons_token (TStr s) (lex cs)"
  by (simp add: quote_def is_space_def lex_string_quoted)

lemma number_start:
  assumes "c = CHR ''-'' \<or> is_digit c"
  shows "lex (c # cs) =
           (case lex_number c cs of
              Inl e \<Rightarrow> Inl e
            | Inr (i, rest) \<Rightarrow> cons_token (TNum i) (lex rest))"
proof -
  from assms have "\<not> is_space c" "c \<noteq> CHR ''[''" "c \<noteq> CHR '']''" "c \<noteq> CHR ''{''"
    "c \<noteq> CHR ''}''" "c \<noteq> CHR '',''" "c \<noteq> CHR '':''" "c \<noteq> CHR 0x22"
    "c \<noteq> CHR ''t''" "c \<noteq> CHR ''f''" "c \<noteq> CHR ''n''"
    by (auto simp: is_digit_def is_space_def)
  with assms show ?thesis
    by (simp only: lex.simps if_False if_True simp_thms)
qed

lemma lex_Nil: "lex [] = Inr []"
  by simp

declare lex.simps [simp del]

lemma render_int_Cons: "\<exists>c cs. render_int i = c # cs \<and> (c = CHR ''-'' \<or> is_digit c)"
  using digits_Cons [of "nat i"] by (auto simp: render_int_def)

lemma lex_render_int:
  assumes "number_end cs"
  shows "lex (render_int i @ cs) = cons_token (TNum i) (lex cs)"
proof -
  from render_int_Cons obtain c ds where r: "render_int i = c # ds"
    and c: "c = CHR ''-'' \<or> is_digit c"
    by blast
  from r assms have "lex_number c (ds @ cs) = Inr (i, cs)"
    by (rule lex_number_render)
  with number_start [OF c, of "ds @ cs"] r show ?thesis by simp
qed

lemma number_end_punct:
  "number_end (CHR '','' # cs)" "number_end (CHR '']'' # cs)" "number_end (CHR ''}'' # cs)"
  "number_end []"
  by (simp_all add: number_end_def is_digit_def)

lemma lex_join:
  assumes "\<And>x r. x \<in> set xs \<Longrightarrow> number_end r \<Longrightarrow> lex (f x @ r) = prepend (g x) (lex r)"
    and "number_end r"
  shows "lex (join '','' (map f xs) @ r) = prepend (join [Comma] (map g xs)) (lex r)"
  using assms
proof (induction xs)
  case Nil
  show ?case by (simp add: prepend_Nil)
next
  case (Cons x xs)
  show ?case
  proof (cases xs)
    case Nil
    with Cons.prems show ?thesis by simp
  next
    case (Cons y ys)
    have "lex (join '','' (map f xs) @ r) = prepend (join [Comma] (map g xs)) (lex r)"
      using Cons.prems Cons.IH by simp
    moreover have "lex (f x @ CHR '','' # join '','' (map f xs) @ r) =
        prepend (g x) (lex (CHR '','' # join '','' (map f xs) @ r))"
      using Cons.prems(1) [of x] by (simp add: number_end_punct)
    ultimately show ?thesis
      using Cons by (simp add: lex_punct prepend_append prepend_Cons prepend_Nil)
  qed
qed

lemma lex_render: "number_end r \<Longrightarrow> lex (JSON_stringify v @ r) = prepend (tokens v) (lex r)"
proof (induction v arbitrary: r)
  case JUndefined
  show ?case using lex_literal(1) [of r] by (simp add: prepend_Cons prepend_Nil)
next
  case JNull
  show ?case using lex_literal(1) [of r] by (simp add: prepend_Cons prepend_Nil)
next
  case (JBool b)
  show ?case using lex_literal(2,3) [of r] by (simp add: prepend_Cons prepend_Nil)
next
  case (JNum i)
  then show ?case by (simp add: lex_render_int prepend_Cons prepend_Nil)
next
  case (JStr s)
  show ?case by (simp add: lex_quote prepend_Cons prepend_Nil)
next
  case (JArr xs)
  have "lex (join '','' (map JSON_stringify xs) @ CHR '']'' # r) =
          prepend (join [Comma] (map tokens xs)) (lex (CHR '']'' # r))"
    by (rule lex_join) (simp_all add: JArr.IH number_end_punct)
  then show ?case
    by (simp add: lex_punct prepend_Cons prepend_append prepend_Nil)
next
  case (JObj obj)
  let ?ms = "filter (\<lambda>(k, v). v \<noteq> JUndefined) obj"
  have "lex (join '','' (map (\<lambda>(k, v). quote k @ '':'' @ JSON_stringify v) ?ms) @ CHR ''}'' # r) =
          prepend (join [Comma] (map (\<lambda>(k, v). TStr k # Colon # tokens v) ?ms))
            (lex (CHR ''}'' # r))"
  proof (rule lex_join)
    fix x r'
    assume x: "x \<in> set ?ms" and r': "number_end r'"
    obtain k v where kv: "x = (k, v)" by (cases x)
    with x have "(k, v) \<in> set obj" by simp
    then have "lex (JSON_stringify v @ r') = prepend (tokens v) (lex r')"
      using JObj.IH r' by fastforce
    with kv show "lex ((case x of (k, v) \<Rightarrow> quote k @ '':'' @ JSON_stringify v) @ r') =
        prepend (case x of (k, v) \<Rightarrow> TStr k # Colon # tokens v) (lex r')"
      by (simp add: lex_quote lex_punct prepend_Cons)
  qed (simp add: number_end_punct)
  then show ?case
    by (simp add: lex_punct prepend_Cons prepend_append prepend_Nil)
qed

subsection \<open>The parser never runs out of calls\<close>

lemma after_item_length: "after_item close ts = Some (again, rest) \<Longrightarrow> length ts = Suc (length rest)"
  by (cases ts) (auto split: if_splits)

lemma member_key_length: "member_key ts = Some (k, rest) \<Longrightarrow> length ts = Suc (Suc (length rest))"
  by (induction ts rule: member_key.induct) simp_all

lemma parse_value_step:
  assumes "2 * length ts < Suc n"
    and el: "\<And>ts acc. 2 * length ts + 1 < n \<Longrightarrow>
      parse_elements n acc ts \<noteq> None \<and>
      (\<forall>v rest. parse_elements n acc ts = Some (Inr (v, rest)) \<longrightarrow> length rest < length ts)"
    and mem: "\<And>ts obj. 2 * length ts + 1 < n \<Longrightarrow>
      parse_members n obj ts \<noteq> None \<and>
      (\<forall>v rest. parse_members n obj ts = Some (Inr (v, rest)) \<longrightarrow> length rest < length ts)"
  shows "parse_value (Suc n) ts \<noteq> None \<and>
      (\<forall>v rest. parse_value (Suc n) ts = Some (Inr (v, rest)) \<longrightarrow> length rest < length ts)"
proof (cases ts)
  case Nil
  then show ?thesis by simp
next
  case (Cons t us)
  with assms(1) have fuel: "2 * length us + 1 < n" by simp
  from el [OF fuel, of "[]"] mem [OF fuel, of "[]"] Cons show ?thesis
    by (auto split: option.splits if_splits)
qed

lemma parse_elements_step:
  assumes "2 * length ts + 1 < Suc n"
    and val: "\<And>ts. 2 * length ts < n \<Longrightarrow>
      parse_value n ts \<noteq> None \<and>
      (\<forall>v rest. parse_value n ts = Some (Inr (v, rest)) \<longrightarrow> length rest < length ts)"
    and el: "\<And>ts acc. 2 * length ts + 1 < n \<Longrightarrow>
      parse_elements n acc ts \<noteq> None \<and>
      (\<forall>v rest. parse_elements n acc ts = Some (Inr (v, rest)) \<longrightarrow> length rest < length ts)"
  shows "parse_elements (Suc n) acc ts \<noteq> None \<and>
      (\<forall>v rest. parse_elements (Suc n) acc ts = Some (Inr (v, rest)) \<longrightarrow> length rest < length ts)"
proof -
  from assms(1) have "2 * length ts < n" by simp
  from val [OF this] obtain r where r: "parse_value n ts = Some r"
    and shorter: "\<And>v rest. r = Inr (v, rest) \<Longrightarrow> length rest < length ts"
    by auto
  show ?thesis
  proof (cases r)
    case (Inl e)
    with r show ?thesis by simp
  next
    case (Inr p)
    obtain v ts' where p: "p = (v, ts')" by (cases p)
    with Inr shorter have less: "length ts' < length ts" by simp
    show ?thesis
    proof (cases "after_item RBracket ts'")
      case None
      with r Inr p show ?thesis by simp
    next
      case (Some q)
      obtain again ts'' where q: "q = (again, ts'')" by (cases q)
      with Some have len: "length ts' = Suc (length ts'')" by (simp add: after_item_length)
      with less assms(1) have "2 * length ts'' + 1 < n" by simp
      from el [OF this, of "acc @ [v]"] r Inr p Some q len less show ?thesis
        by auto
    qed
  qed
qed

lemma parse_members_step:
  assumes "2 * length ts + 1 < Suc n"
    and val: "\<And>ts. 2 * length ts < n \<Longrightarrow>
      parse_value n ts \<noteq> None \<and>
      (\<forall>v rest. parse_value n ts = Some (Inr (v, rest)) \<longrightarrow> length rest < length ts)"
    and mem: "\<And>ts obj. 2 * length ts + 1 < n \<Longrightarrow>
      parse_members n obj ts \<noteq> None \<and>
      (\<forall>v rest. parse_members n obj ts = Some (Inr (v, rest)) \<longrightarrow> length rest < length ts)"
  shows "parse_members (Suc n) obj ts \<noteq> None \<and>
      (\<forall>v rest. parse_members (Suc n) obj ts = Some (Inr (v, rest)) \<longrightarrow> length rest < length ts)"
proof (cases "member_key ts")
  case None
  then show ?thesis by simp
next
  case (Some kt)
  obtain k ts0 where kt: "kt = (k, ts0)" by (cases kt)
  with Some have len0: "length ts = Suc (Suc (length ts0))" by (simp add: member_key_length)
  with assms(1) have "2 * length ts0 < n" by simp
  from val [OF this] obtain r where r: "parse_value n ts0 = Some r"
    and shorter: "\<And>v rest. r = Inr (v, rest) \<Longrightarrow> length rest < length ts0"
    by auto
  show ?thesis
  proof (cases r)
    case (Inl e)
    with r Some kt show ?thesis by simp
  next
    case (Inr p)
    obtain v ts' where p: "p = (v, ts')" by (cases p)
    with Inr shorter have less: "length ts' < length ts0" by simp
    show ?thesis
    proof (cases "after_item RBrace ts'")
      case None
      with r Inr p Some kt show ?thesis by simp
    next
      case (Some q)
      obtain again ts'' where q: "q = (again, ts'')" by (cases q)
      with Some have len: "length ts' = Suc (length ts'')" by (simp add: after_item_length)
      with less len0 assms(1) have "2 * length ts'' + 1 < n" by simp
      from mem [OF this, of "set_prop obj k v"] r Inr p Some q len less len0 \<open>member_key ts = Some kt\<close> kt
      show ?thesis by auto
    qed
  qed
qed

lemma parse_fuel:
  "(\<forall>ts. 2 * length ts < n \<longrightarrow>
      parse_value n ts \<noteq> None \<and>
      (\<forall>v rest. parse_value n ts = Some (Inr (v, rest)) \<longrightarrow> length rest < length ts))
   \<and> (\<forall>ts acc. 2 * length ts + 1 < n \<longrightarrow>
      parse_elements n acc ts \<noteq> None \<and>
      (\<forall>v rest. parse_elements n acc ts = Some (Inr (v, rest)) \<longrightarrow> length rest < length ts))
   \<and> (\<forall>ts obj. 2 * length ts + 1 < n \<longrightarrow>
      parse_members n obj ts \<noteq> None \<and>
      (\<forall>v rest. parse_members n obj ts = Some (Inr (v, rest)) \<longrightarrow> length rest < length ts))"
proof (induction n)
  case 0
  show ?case by simp
next
  case (Suc n)
  from Suc have val: "\<And>ts. 2 * length ts < n \<Longrightarrow>
      parse_value n ts \<noteq> None \<and>
      (\<forall>v rest. parse_value n ts = Some (Inr (v, rest)) \<longrightarrow> length rest < length ts)"
    and el: "\<And>ts acc. 2 * length ts + 1 < n \<Longrightarrow>
      parse_elements n acc ts \<noteq> None \<and>
      (\<forall>v rest. parse_elements n acc ts = Some (Inr (v, rest)) \<longrightarrow> length rest < length ts)"
    and mem: "\<And>ts obj. 2 * length ts + 1 < n \<Longrightarrow>
      parse_members n obj ts \<noteq> None \<and>
      (\<forall>v rest. parse_members n obj ts = Some (Inr (v, rest)) \<longrightarrow> length rest < length ts)"
    by blast+
  show ?case
    using parse_value_step [OF _ el mem] parse_elements_step [OF _ val el]
      parse_members_step [OF _ val mem]
    by blast
qed

text \<open>The bound that \<open>JSON_parse\<close> gives is enough.\<close>

lemma parse_value_enough: "parse_value (2 * length ts + 1) ts \<noteq> None"
  using parse_fuel [of "2 * length ts + 1"] by simp

subsection \<open>Parsing the text of a value\<close>

lemma tokens_start:
  "\<exists>t ts. tokens v = t # ts \<and> t \<noteq> RBracket \<and> t \<noteq> RBrace \<and> t \<noteq> Comma \<and> t \<noteq> Colon"
  by (cases v) simp_all

lemma set_prop_fresh: "k \<notin> set (map fst obj) \<Longrightarrow> set_prop obj k v = obj @ [(k, v)]"
  by (induction obj) auto

lemma parse_elements_join:
  assumes "\<And>x n rest. x \<in> set xs \<Longrightarrow> 2 * length (tokens x @ rest) < n \<Longrightarrow>
             parse_value n (tokens x @ rest) = Some (Inr (to_json x, rest))"
    and "xs \<noteq> []"
    and "2 * length (join [Comma] (map tokens xs) @ RBracket # rest) + 1 < n"
  shows "parse_elements n acc (join [Comma] (map tokens xs) @ RBracket # rest) =
           Some (Inr (JArr (acc @ map to_json xs), rest))"
  using assms
proof (induction xs arbitrary: acc n)
  case Nil
  then show ?case by simp
next
  case (Cons x xs)
  from Cons.prems(3) obtain m where n: "n = Suc m" by (cases n) auto
  show ?case
  proof (cases xs)
    case Nil
    have "parse_value m (tokens x @ RBracket # rest) = Some (Inr (to_json x, RBracket # rest))"
      using Cons.prems(3) n Nil by (intro Cons.prems(1)) simp_all
    with n Nil show ?thesis by simp
  next
    case (Cons y ys)
    let ?tail = "join [Comma] (map tokens xs) @ RBracket # rest"
    have v: "parse_value m (tokens x @ Comma # ?tail) = Some (Inr (to_json x, Comma # ?tail))"
      using Cons.prems(3) n Cons by (intro Cons.prems(1)) simp_all
    have "parse_elements m (acc @ [to_json x]) ?tail =
            Some (Inr (JArr ((acc @ [to_json x]) @ map to_json xs), rest))"
      using Cons.prems(1,3) n Cons by (intro Cons.IH) simp_all
    with v n Cons show ?thesis by simp
  qed
qed

lemma parse_members_join:
  assumes "\<And>k v n rest. (k, v) \<in> set ms \<Longrightarrow> 2 * length (tokens v @ rest) < n \<Longrightarrow>
             parse_value n (tokens v @ rest) = Some (Inr (to_json v, rest))"
    and "ms \<noteq> []"
    and "distinct (map fst acc @ map fst ms)"
    and "2 * length (join [Comma] (map (\<lambda>(k, v). TStr k # Colon # tokens v) ms) @ RBrace # rest) + 1 < n"
  shows "parse_members n acc (join [Comma] (map (\<lambda>(k, v). TStr k # Colon # tokens v) ms) @ RBrace # rest) =
           Some (Inr (JObj (acc @ map (\<lambda>(k, v). (k, to_json v)) ms), rest))"
  using assms
proof (induction ms arbitrary: acc n)
  case Nil
  then show ?case by simp
next
  case (Cons p ms)
  obtain k v where p: "p = (k, v)" by (cases p)
  from Cons.prems(4) obtain m where n: "n = Suc m" by (cases n) auto
  from Cons.prems(3) p have fresh: "set_prop acc k (to_json v) = acc @ [(k, to_json v)]"
    by (intro set_prop_fresh) auto
  show ?case
  proof (cases ms)
    case Nil
    have "parse_value m (tokens v @ RBrace # rest) = Some (Inr (to_json v, RBrace # rest))"
      using Cons.prems(4) n Nil p by (intro Cons.prems(1) [of k]) simp_all
    with n Nil p fresh show ?thesis by simp
  next
    case (Cons q qs)
    let ?tail = "join [Comma] (map (\<lambda>(k, v). TStr k # Colon # tokens v) ms) @ RBrace # rest"
    have v: "parse_value m (tokens v @ Comma # ?tail) = Some (Inr (to_json v, Comma # ?tail))"
      using Cons.prems(4) n Cons p by (intro Cons.prems(1) [of k]) simp_all
    have "parse_members m (acc @ [(k, to_json v)]) ?tail =
            Some (Inr (JObj ((acc @ [(k, to_json v)]) @ map (\<lambda>(k, v). (k, to_json v)) ms), rest))"
      using Cons.prems(1,3,4) n Cons p by (intro Cons.IH) auto
    with v n Cons p fresh show ?thesis by simp
  qed
qed

lemma parse_tokens:
  "distinct_keys v \<Longrightarrow> 2 * length (tokens v @ rest) < n \<Longrightarrow>
     parse_value n (tokens v @ rest) = Some (Inr (to_json v, rest))"
proof (induction v arbitrary: n rest)
  case (JArr xs)
  from JArr.prems(2) obtain m where n: "n = Suc m" by (cases n) auto
  show ?case
  proof (cases xs)
    case Nil
    with n show ?thesis by simp
  next
    case (Cons y ys)
    from tokens_start [of y] obtain t ts where t: "tokens y = t # ts" "t \<noteq> RBracket"
      by blast
    have "parse_elements m [] (join [Comma] (map tokens xs) @ RBracket # rest) =
            Some (Inr (JArr ([] @ map to_json xs), rest))"
    proof (rule parse_elements_join)
      fix x n' rest'
      assume "x \<in> set xs" "2 * length (tokens x @ rest') < n'"
      with JArr.IH JArr.prems(1)
      show "parse_value n' (tokens x @ rest') = Some (Inr (to_json x, rest'))"
        by (simp add: list_all_iff)
    next
      show "xs \<noteq> []" using Cons by simp
    next
      show "2 * length (join [Comma] (map tokens xs) @ RBracket # rest) + 1 < m"
        using JArr.prems(2) n by simp
    qed
    moreover have "take 1 (join [Comma] (map tokens xs) @ RBracket # rest) \<noteq> [RBracket]"
      using Cons t by (cases ys) simp_all
    ultimately show ?thesis
      using n by simp
  qed
next
  case (JObj obj)
  from JObj.prems(2) obtain m where n: "n = Suc m" by (cases n) auto
  let ?ms = "filter (\<lambda>(k, v). v \<noteq> JUndefined) obj"
  let ?ts = "join [Comma] (map (\<lambda>(k, v). TStr k # Colon # tokens v) ?ms) @ RBrace # rest"
  show ?case
  proof (cases ?ms)
    case Nil
    with n show ?thesis by simp
  next
    case (Cons q qs)
    have "parse_members m [] ?ts = Some (Inr (JObj ([] @ map (\<lambda>(k, v). (k, to_json v)) ?ms), rest))"
    proof (rule parse_members_join)
      fix k v n' rest'
      assume kv: "(k, v) \<in> set ?ms" and n': "2 * length (tokens v @ rest') < n'"
      from kv have in_obj: "(k, v) \<in> set obj" by simp
      with JObj.prems(1) have "distinct_keys v" by (auto simp: list_all_iff)
      with JObj.IH in_obj n'
      show "parse_value n' (tokens v @ rest') = Some (Inr (to_json v, rest'))"
        by fastforce
    next
      show "?ms \<noteq> []" using Cons by simp
    next
      from JObj.prems(1) have "distinct (map fst obj)" by simp
      then show "distinct (map fst [] @ map fst ?ms)"
        by (simp add: distinct_map_filter)
    next
      show "2 * length ?ts + 1 < m"
        using JObj.prems(2) n by simp
    qed
    moreover have "take 1 ?ts \<noteq> [RBrace]"
      using Cons by (cases q; cases qs) auto
    ultimately show ?thesis
      using n by simp
  qed
qed (auto, (case_tac n; simp)+)

lemma lex_render_all: "lex (JSON_stringify v) = Inr (tokens v)"
  using lex_render [of "[]" v] by (simp add: number_end_punct lex_Nil)

lemma parse_stringify: "distinct_keys v \<Longrightarrow> JSON_parse (JSON_stringify v) = Inr (to_json v)"
  using parse_tokens [of v "[]" "2 * length (tokens v) + 1"]
  by (simp add: JSON_parse_def lex_render_all)

subsection \<open>What the parser returns\<close>

lemma scalar_wf: "scalar t = Some v \<Longrightarrow> is_json v \<and> distinct_keys v"
  by (cases t) auto

lemma set_prop_keys: "fst ` set (set_prop obj k v) = insert k (fst ` set obj)"
proof (induction obj)
  case Nil
  show ?case by simp
next
  case (Cons p obj)
  obtain k' w where p: "p = (k', w)" by (cases p)
  show ?case
  proof (cases "k' = k")
    case True
    with p show ?thesis by auto
  next
    case False
    with p Cons show ?thesis by (simp add: insert_commute)
  qed
qed

lemma distinct_set_prop: "distinct (map fst obj) \<Longrightarrow> distinct (map fst (set_prop obj k v))"
  by (induction obj) (auto simp: set_prop_keys)

lemma list_all_set_prop:
  "list_all (\<lambda>(k, v). P v) obj \<Longrightarrow> P v \<Longrightarrow> list_all (\<lambda>(k, v). P v) (set_prop obj k v)"
  by (induction obj) auto

lemma set_prop_wf:
  assumes "is_json (JObj obj) \<and> distinct_keys (JObj obj)" and "is_json v \<and> distinct_keys v"
  shows "is_json (JObj (set_prop obj k v)) \<and> distinct_keys (JObj (set_prop obj k v))"
  using assms by (simp add: distinct_set_prop list_all_set_prop)

lemma parse_wf_all:
  "(\<forall>ts v rest. parse_value n ts = Some (Inr (v, rest)) \<longrightarrow> is_json v \<and> distinct_keys v)
   \<and> (\<forall>ts acc v rest. parse_elements n acc ts = Some (Inr (v, rest)) \<longrightarrow>
         list_all is_json acc \<and> list_all distinct_keys acc \<longrightarrow> is_json v \<and> distinct_keys v)
   \<and> (\<forall>ts obj v rest. parse_members n obj ts = Some (Inr (v, rest)) \<longrightarrow>
         is_json (JObj obj) \<and> distinct_keys (JObj obj) \<longrightarrow> is_json v \<and> distinct_keys v)"
proof (induction n)
  case 0
  show ?case by simp
next
  case (Suc n)
  from Suc have val: "\<And>ts v rest. parse_value n ts = Some (Inr (v, rest)) \<Longrightarrow>
      is_json v \<and> distinct_keys v"
    and el: "\<And>ts acc v rest. parse_elements n acc ts = Some (Inr (v, rest)) \<Longrightarrow>
      list_all is_json acc \<and> list_all distinct_keys acc \<Longrightarrow> is_json v \<and> distinct_keys v"
    and mem: "\<And>ts obj v rest. parse_members n obj ts = Some (Inr (v, rest)) \<Longrightarrow>
      is_json (JObj obj) \<and> distinct_keys (JObj obj) \<Longrightarrow> is_json v \<and> distinct_keys v"
    by blast+
  have v: "is_json v \<and> distinct_keys v" if "parse_value (Suc n) ts = Some (Inr (v, rest))"
    for ts v rest
  proof (cases ts)
    case Nil
    with that show ?thesis by simp
  next
    case (Cons t us)
    show ?thesis
    proof (cases "scalar t")
      case (Some w)
      with that Cons scalar_wf [of t w] show ?thesis by simp
    next
      case None
      with that Cons el [of "[]" us v rest] mem [of "[]" us v rest] show ?thesis
        by (auto split: if_splits)
    qed
  qed
  have e: "is_json v \<and> distinct_keys v"
    if "parse_elements (Suc n) acc ts = Some (Inr (v, rest))"
      and "list_all is_json acc \<and> list_all distinct_keys acc" for ts acc v rest
    using that val [of ts] el [of "acc @ [_]"]
    by (auto split: option.splits sum.splits prod.splits if_splits)
  have m: "is_json v \<and> distinct_keys v"
    if run: "parse_members (Suc n) obj ts = Some (Inr (v, rest))"
      and obj: "is_json (JObj obj) \<and> distinct_keys (JObj obj)" for ts obj v rest
  proof (cases "member_key ts")
    case None
    with run show ?thesis by simp
  next
    case (Some kt)
    obtain k ts0 where kt: "kt = (k, ts0)" by (cases kt)
    from run Some kt obtain w ts' where w: "parse_value n ts0 = Some (Inr (w, ts'))"
      by (auto split: option.splits sum.splits)
    from val [OF w] obj have wf: "is_json (JObj (set_prop obj k w)) \<and>
        distinct_keys (JObj (set_prop obj k w))"
      by (intro set_prop_wf)
    from run Some kt w wf mem [of "set_prop obj k w" _ v rest] show ?thesis
      by (auto split: option.splits if_splits)
  qed
  from v e m show ?case by blast
qed

lemma JSON_parse_wf:
  assumes "JSON_parse s = Inr v"
  shows "is_json v \<and> distinct_keys v"
proof -
  from assms obtain ts rest where "parse_value (2 * length ts + 1) ts = Some (Inr (v, rest))"
    by (auto simp: JSON_parse_def split: sum.splits option.splits prod.splits if_splits)
  with parse_wf_all [of "2 * length ts + 1"] show ?thesis
    by blast
qed

declare JSON_stringify.simps [simp del]

subsection \<open>The example texts\<close>

lemma parse_empty_array: "JSON_parse ''[]'' = Inr (JArr [])"
  by code_simp

lemma parse_malformed: "JSON_parse ''[{'' = Inl SyntaxError"
  by code_simp

lemma parse_john_28:
  "JSON_parse john_28 =
     Inr (JArr [JObj [(''id'', JNum 1), (''name'', JStr ''John''), (''age'', JNum 28)]])"
  unfolding john_28_def by code_simp

lemma stringify_john_29:
  "JSON_stringify (JArr [JObj [(''id'', JNum 1), (''name'', JStr ''John''), (''age'', JNum 29)]]) =
     john_29"
  unfolding john_29_def by code_simp

lemma parse_two_records:
  "JSON_parse two_records =
     Inr (JArr [JObj [(''id'', JNum 1), (''age'', JNum 29)],
                JObj [(''id'', JNum 2), (''age'', JNum 30)]])"
  unfolding two_records_def by code_simp

lemma stringify_second_record:
  "JSON_stringify (JArr [JObj [(''id'', JNum 2), (''age'', JNum 30)]]) = second_record"
  unfolding second_record_def by code_simp

lemma parse_one_record:
  "JSON_parse one_record = Inr (JArr [JObj [(''id'', JNum 1), (''age'', JNum 28)]])"
  unfolding one_record_def by code_simp

lemma stringify_one_record_29:
  "JSON_stringify (JArr [JObj [(''id'', JNum 1), (''age'', JNum 29)]]) = one_record_29"
  unfolding one_record_29_def by code_simp

lemma stringify_empty_array: "JSON_stringify (JArr []) = ''[]''"
  by code_simp

lemma parse_record_x: "JSON_parse record_x = Inr (JArr [JObj [(''id'', JStr ''x'')]])"
  unfolding record_x_def by code_simp

lemma stringify_record_b: "JSON_stringify (JArr [JObj [(''id'', JStr ''b'')]]) = record_b"
  unfolding record_b_def by code_simp

lemma parse_records_a_b:
  "JSON_parse records_a_b = Inr (JArr [JObj [(''id'', JStr ''a'')], JObj [(''id'', JStr ''b'')]])"
  unfolding records_a_b_def by code_simp

lemma stringify_generated_a:
  "JSON_stringify (JArr [JObj [(''id'', JStr ''4fzyo82mvyrk1x9qh3u0zd''), (''name'', JStr ''a'')]]) =
     generated_a"
  unfolding generated_a_def by code_simp


section \<open>Properties of the operations\<close>

lemma to_json_id: "is_json v \<Longrightarrow> to_json v = v"
proof (induction v)
  case (JArr xs)
  then have "map to_json xs = xs"
    by (intro map_idI) (simp add: list_all_iff)
  then show ?case by simp
next
  case (JObj obj)
  have "\<forall>(k, v) \<in> set obj. v \<noteq> JUndefined"
    using JObj.prems by (auto simp: list_all_iff)
  then have kept: "filter (\<lambda>(k, v). v \<noteq> JUndefined) obj = obj"
    by (intro filter_True) auto
  have "map (\<lambda>(k, v). (k, to_json v)) obj = obj"
  proof (intro map_idI)
    fix x assume x: "x \<in> set obj"
    obtain k v where kv: "x = (k, v)" by (cases x)
    with x JObj.prems have "is_json v" by (auto simp: list_all_iff)
    with JObj.IH x kv have "to_json v = v" by fastforce
    with kv show "(case x of (k, v) \<Rightarrow> (k, to_json v)) = x" by simp
  qed
  with kept show ?case by simp
qed simp_all

lemma is_json_to_json: "is_json (to_json v)"
proof (induction v)
  case (JArr xs)
  then show ?case by (simp add: list_all_iff)
next
  case (JObj obj)
  then show ?case by (fastforce simp: list_all_iff)
qed simp_all

lemma map_to_json_id: "list_all is_json xs \<Longrightarrow> map to_json xs = xs"
  by (intro map_idI) (simp add: list_all_iff to_json_id)

lemma own_prop_set_prop: "own_prop (set_prop obj key v) key = v"
  by (induction obj key v rule: set_prop.induct) (simp_all add: own_prop_def)

lemma own_prop_set_prop_other:
  "k \<noteq> key \<Longrightarrow> own_prop (set_prop obj key v) k = own_prop obj k"
  by (induction obj key v rule: set_prop.induct) (simp_all add: own_prop_def)

lemma own_prop_distinct_keys: "distinct_keys (JObj obj) \<Longrightarrow> distinct_keys (own_prop obj k)"
proof (cases "map_of obj k")
  case None
  then show ?thesis by (simp add: own_prop_def)
next
  case (Some v)
  assume "distinct_keys (JObj obj)"
  moreover from Some have "(k, v) \<in> set obj" by (rule map_of_SomeD)
  ultimately have "distinct_keys v" by (auto simp: list_all_iff)
  with Some show ?thesis by (simp add: own_prop_def)
qed

lemma get_current:
  "get [] h fs =
     ((case storagePath h of
         None \<Rightarrow> Inl TypeError
       | Some path \<Rightarrow> (case files fs path of None \<Rightarrow> Inl IOError | Some t \<Rightarrow> JSON_parse t)),
      h, fs)"
  by (simp add: get_def readFileSync_def split: option.splits sum.splits)

lemma insert_db_bound:
  assumes "storage h = Some s" and "s \<noteq> []" and "storagePath h = Some path"
    and "files fs path = Some t" and "JSON_parse t = Inr (JArr items)"
    and "writable fs path"
  shows "insert_db insertData rnd h fs =
           (Inr (set_prop insertData ''id'' (assigned_id insertData rnd)),
            h\<lparr>lastInsertId := assigned_id insertData rnd\<rparr>,
            fs\<lparr>files := (files fs)(path \<mapsto>
                 JSON_stringify (JArr (items @
                   [JObj (set_prop insertData ''id'' (assigned_id insertData rnd))])))\<rparr>)"
  using assms
  by (simp add: insert_db_def insert_begin_def insert_resume_def get_current
      writeFileSync_def Let_def)

text \<open>The record that \<open>insert\<close> stores has distinct keys when the caller's has.\<close>

lemma stored_record_distinct_keys:
  assumes "distinct_keys (JObj insertData)"
  shows "distinct_keys (JObj (set_prop insertData ''id'' (assigned_id insertData rnd)))"
proof -
  from assms have "distinct_keys (assigned_id insertData rnd)"
    by (simp add: assigned_id_def own_prop_distinct_keys del: distinct_keys.simps(2))
  with assms show ?thesis
    by (simp add: distinct_set_prop list_all_set_prop)
qed

text \<open>What the next load finds after a record has been appended.\<close>

lemma parse_after_append:
  assumes "JSON_parse t = Inr (JArr items)" and "distinct_keys (JObj r)"
  shows "JSON_parse (JSON_stringify (JArr (items @ [JObj r]))) =
           Inr (JArr (items @ [to_json (JObj r)]))"
proof -
  from JSON_parse_wf [OF assms(1)] have items: "list_all is_json items" "list_all distinct_keys items"
    by simp_all
  with assms(2) have "distinct_keys (JArr (items @ [JObj r]))"
    by (simp del: distinct_keys.simps(2))
  then have "JSON_parse (JSON_stringify (JArr (items @ [JObj r]))) =
      Inr (to_json (JArr (items @ [JObj r])))"
    by (rule parse_stringify)
  with items(1) show ?thesis
    by (simp add: map_to_json_id del: to_json.simps(3))
qed

text \<open>
  Inserts awaited one after the other on a bound handle whose collection loads and can
  be written: every call succeeds and the file ends with a text that denotes the
  records it held followed by what \<open>JSON.stringify\<close> keeps of each inserted record,
  in the order of the calls.
\<close>

lemma insert_each_bound:
  assumes "storage h = Some s" and "s \<noteq> []" and "storagePath h = Some path"
    and "files fs path = Some t" and "JSON_parse t = Inr (JArr items)"
    and "writable fs path"
    and "list_all (\<lambda>(d, rnd). distinct_keys (JObj d)) calls"
  shows "\<exists>h' t'. insert_each calls h fs =
            (map (\<lambda>(d, rnd). Inr (set_prop d ''id'' (assigned_id d rnd))) calls, h',
             fs\<lparr>files := (files fs)(path \<mapsto> t')\<rparr>)
          \<and> JSON_parse t' = Inr (JArr (items @
                map (\<lambda>(d, rnd). to_json (JObj (set_prop d ''id'' (assigned_id d rnd)))) calls))
          \<and> storage h' = Some s \<and> storagePath h' = Some path"
  using assms
proof (induction calls arbitrary: h fs t items)
  case Nil
  then show ?case
    by (intro exI [of _ h] exI [of _ t]) (simp add: map_upd_triv)
next
  case (Cons c calls)
  obtain d rnd where c: "c = (d, rnd)" by (cases c)
  let ?r = "set_prop d ''id'' (assigned_id d rnd)"
  let ?h1 = "h\<lparr>lastInsertId := assigned_id d rnd\<rparr>"
  let ?t1 = "JSON_stringify (JArr (items @ [JObj ?r]))"
  let ?items1 = "items @ [to_json (JObj ?r)]"
  let ?fs1 = "fs\<lparr>files := (files fs)(path \<mapsto> ?t1)\<rparr>"
  have first: "insert_db d rnd h fs = (Inr ?r, ?h1, ?fs1)"
    using insert_db_bound [OF Cons.prems(1-6), of d rnd] .
  from Cons.prems(7) c have "distinct_keys (JObj d)" by simp
  then have "distinct_keys (JObj ?r)" by (rule stored_record_distinct_keys)
  with Cons.prems(5) have parsed: "JSON_parse ?t1 = Inr (JArr ?items1)"
    by (rule parse_after_append)
  have "storage ?h1 = Some s" "s \<noteq> []" "storagePath ?h1 = Some path"
    "files ?fs1 path = Some ?t1" "JSON_parse ?t1 = Inr (JArr ?items1)"
    "writable ?fs1 path" "list_all (\<lambda>(d, rnd). distinct_keys (JObj d)) calls"
    using Cons.prems parsed by simp_all
  from Cons.IH [OF this] obtain h' t' where
    rest: "insert_each calls ?h1 ?fs1 =
            (map (\<lambda>(d, rnd). Inr (set_prop d ''id'' (assigned_id d rnd))) calls, h',
             ?fs1\<lparr>files := (files ?fs1)(path \<mapsto> t')\<rparr>)"
    and t': "JSON_parse t' = Inr (JArr (?items1 @
                map (\<lambda>(d, rnd). to_json (JObj (set_prop d ''id'' (assigned_id d rnd)))) calls))"
    and h': "storage h' = Some s" "storagePath h' = Some path"
    by blast
  have collapse: "?fs1\<lparr>files := (files ?fs1)(path \<mapsto> t')\<rparr> =
      fs\<lparr>files := (files fs)(path \<mapsto> t')\<rparr>"
    by simp
  have run: "insert_each (c # calls) h fs =
          (map (\<lambda>(d, rnd). Inr (set_prop d ''id'' (assigned_id d rnd))) (c # calls), h',
           fs\<lparr>files := (files fs)(path \<mapsto> t')\<rparr>)"
    by (simp only: c insert_each.simps first rest collapse prod.case list.simps)
  from t' have "JSON_parse t' = Inr (JArr (items @
      map (\<lambda>(d, rnd). to_json (JObj (set_prop d ''id'' (assigned_id d rnd)))) (c # calls)))"
    by (simp only: c list.simps prod.case append_assoc append_Cons append_Nil)
  with run h' show ?case by blast
qed

subsection \<open>The query matcher\<close>

lemma strict_eq_primitive: "is_primitive b \<Longrightarrow> strict_eq a b = (a = b)"
  by (cases b; cases a) simp_all

lemma every_key_object:
  "every_key (JObj r) query ks =
     Inr (list_all (\<lambda>k. strict_eq (own_prop r k) (own_prop query k)) ks)"
  by (induction ks) simp_all

lemma matches_object:
  "matches (JObj r) query =
     Inr (list_all (\<lambda>k. strict_eq (own_prop r k) (own_prop query k)) (keys query))"
  by (simp add: matches_def every_key_object)

lemma filter_items_total:
  "list_all (\<lambda>x. \<exists>b. p x = Inr b) xs \<Longrightarrow>
     filter_items p xs = Inr (filter (\<lambda>x. p x = Inr True) xs)"
  by (induction xs) auto

lemma filter_items_objects:
  "filter_items (\<lambda>item. matches item query) (map JObj rs) =
     Inr (filter (\<lambda>item. matches item query = Inr True) (map JObj rs))"
  by (rule filter_items_total) (simp add: list_all_iff matches_object)

subsection \<open>What update and delete compute\<close>

lemma assign_keys_object:
  "assign_keys (JObj r) updateData ks =
     Inr (JObj (fold (\<lambda>key obj. set_prop obj key (own_prop updateData key)) ks r))"
  by (induction ks arbitrary: r) simp_all

text \<open>
  The merge: after the assignments a key of the patch has the patch's value, every
  other key has the value it had.
\<close>

lemma own_prop_merged:
  "own_prop (fold (\<lambda>key obj. set_prop obj key (own_prop updateData key)) ks r) k =
     (if k \<in> set ks then own_prop updateData k else own_prop r k)"
proof (induction ks arbitrary: r)
  case Nil
  show ?case by simp
next
  case (Cons key ks)
  show ?case
    using Cons.IH [of "set_prop r key (own_prop updateData key)"]
    by (cases "k = key") (auto simp: own_prop_set_prop own_prop_set_prop_other)
qed

text \<open>
  On a collection of records, \<open>update\<close> computes the sequence in which the records
  that match carry the merged patch and the others are as they were, in the original
  order; \<open>delete\<close> splits the sequence into the records that match and those that do
  not.
\<close>

lemma update_items_objects:
  "update_items query updateData (map JObj rs) =
     Inr (map (\<lambda>r. JObj (if matches (JObj r) query = Inr True
                          then fold (\<lambda>key obj. set_prop obj key (own_prop updateData key))
                                 (keys updateData) r
                          else r)) rs)"
  by (induction rs) (simp_all add: matches_object assign_keys_object)

lemma delete_items_objects:
  "delete_items query (map JObj rs) =
     Inr (filter (\<lambda>item. matches item query = Inr True) (map JObj rs),
          filter (\<lambda>item. matches item query \<noteq> Inr True) (map JObj rs))"
  by (induction rs) (simp_all add: matches_object)

text \<open>
  Both operations return that result and leave the disk as it was, with one more
  pending write; the write reaches the file when the event loop performs it.
\<close>

lemma update_bound:
  assumes "storagePath h = Some path" and "files fs path = Some t"
    and "JSON_parse t = Inr (JArr (map JObj rs))"
  shows "update query updateData h fs =
           (Inr (JArr (map (\<lambda>r. JObj (if matches (JObj r) query = Inr True
                          then fold (\<lambda>key obj. set_prop obj key (own_prop updateData key))
                                 (keys updateData) r
                          else r)) rs)), h,
            fs\<lparr>pending := pending fs @ [(path, JSON_stringify
              (JArr (map (\<lambda>r. JObj (if matches (JObj r) query = Inr True
                          then fold (\<lambda>key obj. set_prop obj key (own_prop updateData key))
                                 (keys updateData) r
                          else r)) rs)))]\<rparr>)"
  using assms by (simp add: update_def get_current writeFile_def update_items_objects)

lemma delete_bound:
  assumes "storagePath h = Some path" and "files fs path = Some t"
    and "JSON_parse t = Inr (JArr (map JObj rs))"
  shows "delete query h fs =
           (Inr (filter (\<lambda>item. matches item query = Inr True) (map JObj rs)), h,
            fs\<lparr>pending := pending fs @
              [(path, JSON_stringify
                 (JArr (filter (\<lambda>item. matches item query \<noteq> Inr True) (map JObj rs))))]\<rparr>)"
  using assms
  by (simp add: delete_def get_current writeFile_def delete_items_objects)

lemma complete_write_performs:
  assumes "pending fs = [(path, t)]" and "writable fs path"
  shows "complete_write fs = (fs\<lparr>pending := [], files := (files fs)(path \<mapsto> t)\<rparr>, None)"
  using assms by (simp add: complete_write_def writeFileSync_def)


section \<open>C10: get with a storage name rebinds the handle\<close>

text \<open>
  C10. Calling \<open>get\<close> with a non-empty storage name \<open>s\<close> overwrites the handle's
  \<open>storage\<close> and \<open>storagePath\<close> fields with \<open>s\<close> and \<open>dbPath/s.json\<close>, whatever the
  call returns; a file that is absent at that path is created with the text \<open>[]\<close>
  (when the path can be written; otherwise the call throws and the disk is as before),
  a file that is there is left as it is; and the operations that follow on the handle
  work on that path: \<open>get()\<close> reads it and \<open>insert\<close> writes it.
\<close>

theorem get_rebinds_handle:
  assumes "s \<noteq> []" and "get s h fs = (r, h', fs')"
  shows "storage h' = Some s \<and> storagePath h' = Some (dbPath h @ ''/'' @ s @ ''.json'')
       \<and> dbPath h' = dbPath h \<and> lastInsertId h' = lastInsertId h
       \<and> (files fs (dbPath h @ ''/'' @ s @ ''.json'') = None \<longrightarrow>
            (if writable fs (dbPath h @ ''/'' @ s @ ''.json'')
             then files fs' (dbPath h @ ''/'' @ s @ ''.json'') = Some ''[]''
                  \<and> r = Inr (JArr [])
             else r = Inl IOError \<and> fs' = fs))
       \<and> (files fs (dbPath h @ ''/'' @ s @ ''.json'') \<noteq> None \<longrightarrow> fs' = fs)
       \<and> (\<forall>fs2. get [] h' fs2 =
              ((case files fs2 (dbPath h @ ''/'' @ s @ ''.json'') of
                  None \<Rightarrow> Inl IOError
                | Some t \<Rightarrow> JSON_parse t), h', fs2))
       \<and> (\<forall>fs2 t items insertData rnd.
              files fs2 (dbPath h @ ''/'' @ s @ ''.json'') = Some t
              \<and> JSON_parse t = Inr (JArr items)
              \<and> writable fs2 (dbPath h @ ''/'' @ s @ ''.json'')
              \<longrightarrow> snd (snd (insert_db insertData rnd h' fs2)) =
                    fs2\<lparr>files := (files fs2)(dbPath h @ ''/'' @ s @ ''.json'' \<mapsto>
                      JSON_stringify (JArr (items @
                        [JObj (set_prop insertData ''id'' (assigned_id insertData rnd))])))\<rparr>)"
proof -
  let ?path = "dbPath h @ ''/'' @ s @ ''.json''"
  have h': "h' = h\<lparr>storage := Some s, storagePath := Some ?path\<rparr>"
    using assms
    by (auto simp: get_def setStorage_def Let_def split: if_splits sum.splits option.splits)
  have absent: "files fs ?path = None \<longrightarrow>
            (if writable fs ?path
             then files fs' ?path = Some ''[]'' \<and> r = Inr (JArr [])
             else r = Inl IOError \<and> fs' = fs)"
    using assms
    by (auto simp: get_def setStorage_def Let_def existsSync_def writeFileSync_def
        readFileSync_def parse_empty_array split: if_splits sum.splits option.splits)
  have present: "files fs ?path \<noteq> None \<longrightarrow> fs' = fs"
    using assms
    by (auto simp: get_def setStorage_def Let_def existsSync_def
        split: if_splits sum.splits option.splits)
  have reads: "\<forall>fs2. get [] h' fs2 =
      ((case files fs2 ?path of None \<Rightarrow> Inl IOError | Some t \<Rightarrow> JSON_parse t), h', fs2)"
    by (simp add: get_current h')
  have writes: "\<forall>fs2 t items insertData rnd.
      files fs2 ?path = Some t \<and> JSON_parse t = Inr (JArr items) \<and> writable fs2 ?path
      \<longrightarrow> snd (snd (insert_db insertData rnd h' fs2)) =
            fs2\<lparr>files := (files fs2)(?path \<mapsto>
              JSON_stringify (JArr (items @
                [JObj (set_prop insertData ''id'' (assigned_id insertData rnd))])))\<rparr>"
    using assms(1) by (auto simp: insert_db_bound [where s = s and path = ?path] h')
  from h' absent present reads writes show ?thesis by simp
qed

theorem get_rebinds_handle_witness:
  "''posts'' \<noteq> []
   \<and> get ''posts'' users_handle (disk ''[]'') =
       (Inr (JArr []),
        users_handle\<lparr>storage := Some ''posts'', storagePath := Some ''db/posts.json''\<rparr>,
        (disk ''[]'')\<lparr>files := [''db/users.json'' \<mapsto> ''[]'', ''db/posts.json'' \<mapsto> ''[]'']\<rparr>)
   \<and> files (disk ''[]'') ''db/posts.json'' = None
   \<and> writable (disk ''[]'') ''db/posts.json''
   \<and> storage (users_handle\<lparr>storage := Some ''posts'', storagePath := Some ''db/posts.json''\<rparr>)
       = Some ''posts''
   \<and> get [] (users_handle\<lparr>storage := Some ''posts'', storagePath := Some ''db/posts.json''\<rparr>)
         (disk ''[{'') =
       (Inl IOError,
        users_handle\<lparr>storage := Some ''posts'', storagePath := Some ''db/posts.json''\<rparr>,
        disk ''[{'')"
proof -
  have run: "get ''posts'' users_handle (disk ''[]'') =
       (Inr (JArr []),
        users_handle\<lparr>storage := Some ''posts'', storagePath := Some ''db/posts.json''\<rparr>,
        (disk ''[]'')\<lparr>files := [''db/users.json'' \<mapsto> ''[]'', ''db/posts.json'' \<mapsto> ''[]'']\<rparr>)"
    by (simp add: get_def setStorage_def users_handle_def disk_def parse_empty_array
        existsSync_def writeFileSync_def readFileSync_def Let_def)
  have "''posts'' \<noteq> []" by simp
  from get_rebinds_handle [OF this run] run show ?thesis
    by (simp add: users_handle_def disk_def)
qed

section \<open>C8: what decoding a collection file accepts\<close>




section \<open>C9: the codec round trip\<close>



section \<open>C1: the id that insert assigns\<close>

text \<open>
  C1, as stated, fails: a supplied id is not always used verbatim. The caller
  supplies the id \<open>0\<close>; the record that is stored and returned carries a generated
  string instead.
\<close>

theorem insert_replaces_falsy_id:
  "insert_db [(''id'', JNum 0), (''name'', JStr ''a'')] (''0.4fzyo82mvyr'', ''0.k1x9qh3u0zd'')
       users_handle (disk ''[]'') =
     (Inr [(''id'', JStr ''4fzyo82mvyrk1x9qh3u0zd''), (''name'', JStr ''a'')],
      users_handle\<lparr>lastInsertId := JStr ''4fzyo82mvyrk1x9qh3u0zd''\<rparr>,
      (disk ''[]'')\<lparr>files := [''db/users.json'' \<mapsto> generated_a]\<rparr>)"
  by (simp add: insert_db_def insert_begin_def insert_resume_def get_current assigned_id_def
      generated_id_def substring_def own_prop_def writeFileSync_def parse_empty_array
      stringify_generated_a users_handle_def disk_def Let_def)

text \<open>
  C1, amended. On a bound handle whose collection loads and can be written, \<open>insert\<close>
  returns the record with its \<open>id\<close> field set, appends that record to the stored
  sequence and sets the last insert id to that id, where: a supplied id that is truthy
  is used verbatim; a record with no id, or with a falsy one (\<open>undefined\<close>, \<open>null\<close>,
  \<open>false\<close>, \<open>0\<close>, the empty string), gets the generated string, which is non-empty
  as soon as one of the two random draws is not zero; every other field is untouched.
  The ids of the records already stored play no part.
\<close>

theorem insert_assigns_id:
  assumes "storage h = Some s" and "s \<noteq> []" and "storagePath h = Some path"
    and "files fs path = Some t" and "JSON_parse t = Inr (JArr items)"
    and "writable fs path"
  shows "\<exists>r. insert_db insertData rnd h fs =
               (Inr r, h\<lparr>lastInsertId := own_prop r ''id''\<rparr>,
                fs\<lparr>files := (files fs)(path \<mapsto> JSON_stringify (JArr (items @ [JObj r])))\<rparr>)
            \<and> (truthy (own_prop insertData ''id'') \<longrightarrow>
                 own_prop r ''id'' = own_prop insertData ''id'')
            \<and> (\<not> truthy (own_prop insertData ''id'') \<longrightarrow>
                 own_prop r ''id'' = JStr (generated_id rnd))
            \<and> (2 < length (fst rnd) \<or> 2 < length (snd rnd) \<longrightarrow> generated_id rnd \<noteq> [])
            \<and> (\<forall>k. k \<noteq> ''id'' \<longrightarrow> own_prop r k = own_prop insertData k)"
proof -
  let ?r = "set_prop insertData ''id'' (assigned_id insertData rnd)"
  have id: "own_prop ?r ''id'' = assigned_id insertData rnd"
    by (rule own_prop_set_prop)
  have run: "insert_db insertData rnd h fs =
               (Inr ?r, h\<lparr>lastInsertId := own_prop ?r ''id''\<rparr>,
                fs\<lparr>files := (files fs)(path \<mapsto> JSON_stringify (JArr (items @ [JObj ?r])))\<rparr>)"
    using insert_db_bound [OF assms] by (simp only: id)
  have supplied: "truthy (own_prop insertData ''id'') \<longrightarrow>
                   own_prop ?r ''id'' = own_prop insertData ''id''"
    by (simp add: own_prop_set_prop assigned_id_def)
  have generated: "\<not> truthy (own_prop insertData ''id'') \<longrightarrow>
                   own_prop ?r ''id'' = JStr (generated_id rnd)"
    by (simp add: own_prop_set_prop assigned_id_def)
  have nonempty: "2 < length (fst rnd) \<or> 2 < length (snd rnd) \<longrightarrow> generated_id rnd \<noteq> []"
    by (auto simp: generated_id_def substring_def)
  have others: "\<forall>k. k \<noteq> ''id'' \<longrightarrow> own_prop ?r k = own_prop insertData k"
    by (simp add: own_prop_set_prop_other)
  from run supplied generated nonempty others show ?thesis by blast
qed

theorem insert_assigns_id_witness:
  "storage users_handle = Some ''users'' \<and> ''users'' \<noteq> []
   \<and> storagePath users_handle = Some ''db/users.json''
   \<and> files (disk record_x) ''db/users.json'' = Some record_x
   \<and> JSON_parse record_x = Inr (JArr [JObj [(''id'', JStr ''x'')]])
   \<and> writable (disk record_x) ''db/users.json''
   \<and> truthy (own_prop [(''id'', JStr ''x''), (''name'', JStr ''a'')] ''id'')
   \<and> (\<exists>r. fst (insert_db [(''id'', JStr ''x''), (''name'', JStr ''a'')]
                   (''0.4fzyo82mvyr'', ''0.k1x9qh3u0zd'') users_handle (disk record_x)) = Inr r
          \<and> own_prop r ''id'' = JStr ''x'')"
proof -
  let ?fs = "disk record_x"
  let ?d = "[(''id'', JStr ''x''), (''name'', JStr ''a'')]"
  have a: "storage users_handle = Some ''users''" "''users'' \<noteq> []"
    "storagePath users_handle = Some ''db/users.json''"
    by (simp_all add: users_handle_def)
  have b: "files ?fs ''db/users.json'' = Some record_x"
    "JSON_parse record_x = Inr (JArr [JObj [(''id'', JStr ''x'')]])"
    "writable ?fs ''db/users.json''"
    by (simp_all add: disk_def parse_record_x)
  have c: "truthy (own_prop ?d ''id'')" "own_prop ?d ''id'' = JStr ''x''"
    by (simp_all add: own_prop_def)
  from insert_assigns_id [OF a b, of ?d "(''0.4fzyo82mvyr'', ''0.k1x9qh3u0zd'')"]
  obtain r where
    run: "insert_db ?d (''0.4fzyo82mvyr'', ''0.k1x9qh3u0zd'') users_handle ?fs =
            (Inr r, users_handle\<lparr>lastInsertId := own_prop r ''id''\<rparr>,
             ?fs\<lparr>files := (files ?fs)(''db/users.json'' \<mapsto>
                JSON_stringify (JArr ([JObj [(''id'', JStr ''x'')]] @ [JObj r])))\<rparr>)"
    and verbatim: "truthy (own_prop ?d ''id'') \<longrightarrow> own_prop r ''id'' = own_prop ?d ''id''"
    by blast
  from run have "fst (insert_db ?d (''0.4fzyo82mvyr'', ''0.k1x9qh3u0zd'') users_handle ?fs) = Inr r"
    by simp
  moreover from verbatim c have "own_prop r ''id'' = JStr ''x''"
    by simp
  ultimately have "\<exists>r. fst (insert_db ?d (''0.4fzyo82mvyr'', ''0.k1x9qh3u0zd'') users_handle ?fs) = Inr r
      \<and> own_prop r ''id'' = JStr ''x''"
    by blast
  with a b c(1) show ?thesis by (simp only: simp_thms)
qed

section \<open>C4: the query matcher and find\<close>

text \<open>
  C4. A query maps field names to expected scalar values: null, a boolean, a number
  or a string. For every record and every such query, the matcher returns true iff
  for every key of the query the record has that key with a value equal to the
  expected one (on scalars \<open>===\<close> is equality of values); the empty query matches
  every element; and \<open>find\<close> on a collection of records returns exactly the records
  that match, in their original order.
\<close>

theorem matcher_primitive_query:
  assumes "list_all (\<lambda>(k, v). is_primitive v) query"
  shows "matches (JObj r) query =
           Inr (\<forall>k \<in> set (keys query). map_of r k = map_of query k)
       \<and> matches item [] = Inr True
       \<and> (\<forall>h fs h' fs' rs. get [] h fs = (Inr (JArr (map JObj rs)), h', fs') \<longrightarrow>
            find_db query h fs =
              (Inr (filter (\<lambda>item. matches item query = Inr True) (map JObj rs)), h', fs'))"
proof -
  have key: "strict_eq (own_prop r k) (own_prop query k) \<longleftrightarrow> map_of r k = map_of query k"
    if "k \<in> set (keys query)" for k
  proof -
    from that have "map_of query k \<noteq> None"
      by (simp add: keys_def map_of_eq_None_iff)
    then obtain v where v: "map_of query k = Some v"
      by blast
    then have "(k, v) \<in> set query" by (rule map_of_SomeD)
    with assms have prim: "is_primitive v" by (auto simp: list_all_iff)
    then have "v \<noteq> JUndefined" by auto
    with v prim show ?thesis
      by (auto simp: own_prop_def strict_eq_primitive split: option.splits)
  qed
  have "list_all (\<lambda>k. strict_eq (own_prop r k) (own_prop query k)) (keys query)
        \<longleftrightarrow> (\<forall>k \<in> set (keys query). map_of r k = map_of query k)"
    using key by (simp add: list_all_iff)
  then have m: "matches (JObj r) query =
           Inr (\<forall>k \<in> set (keys query). map_of r k = map_of query k)"
    by (simp add: matches_object)
  have e: "matches item [] = Inr True"
    by (simp add: matches_def keys_def)
  have f: "\<forall>h fs h' fs' rs. get [] h fs = (Inr (JArr (map JObj rs)), h', fs') \<longrightarrow>
            find_db query h fs =
              (Inr (filter (\<lambda>item. matches item query = Inr True) (map JObj rs)), h', fs')"
    by (simp add: find_db_def filter_items_objects)
  from m e f show ?thesis by blast
qed

theorem matcher_primitive_query_witness:
  "list_all (\<lambda>(k, v). is_primitive v) [(''age'', JNum 28)]
   \<and> matches (JObj [(''id'', JNum 1), (''age'', JNum 28)]) [(''age'', JNum 28)] = Inr True
   \<and> matches (JObj [(''id'', JNum 2), (''age'', JNum 30)]) [(''age'', JNum 28)] = Inr False
   \<and> matches (JObj [(''id'', JNum 3)]) [(''age'', JNum 28)] = Inr False"
proof -
  have q: "list_all (\<lambda>(k, v). is_primitive v) [(''age'', JNum 28)]"
    by simp
  from matcher_primitive_query [OF q, of "[(''id'', JNum 1), (''age'', JNum 28)]"]
    matcher_primitive_query [OF q, of "[(''id'', JNum 2), (''age'', JNum 30)]"]
    matcher_primitive_query [OF q, of "[(''id'', JNum 3)]"] q
  show ?thesis by (simp add: keys_def)
qed

section \<open>C5: several inserts on one collection\<close>

text \<open>
  C5, as stated, fails: the library has no lock, and inserts that are started together
  are not serialized. Two inserts with the ids \<open>a\<close> and \<open>b\<close> are started together on
  an empty collection. Both read the empty array before either writes; both report
  success; the file ends with one record, the second write having replaced the first.
\<close>

theorem inserts_together_lose_a_record:
  "insert_together
       [([(''id'', JStr ''a'')], (''0.4fzyo82mvyr'', ''0.k1x9qh3u0zd'')),
        ([(''id'', JStr ''b'')], (''0.9c2r7tq1m5x'', ''0.e8w3n6v0b4j''))]
       users_handle (disk ''[]'') =
     ([Inr [(''id'', JStr ''a'')], Inr [(''id'', JStr ''b'')]],
      users_handle\<lparr>lastInsertId := JStr ''b''\<rparr>,
      (disk ''[]'')\<lparr>files := [''db/users.json'' \<mapsto> record_b]\<rparr>)"
  by (simp add: insert_together_def insert_begin_def insert_resume_def get_current
      assigned_id_def own_prop_def writeFileSync_def parse_empty_array stringify_record_b
      users_handle_def disk_def Let_def)

text \<open>
  C5, amended. For every N, N insert calls against the same collection that are
  awaited one after the other (each has returned before the next is made) all succeed
  and leave exactly N more records on disk: the file holds the records it held,
  followed by the inserted ones in the order of the calls. This needs no lock and the
  source has none; it holds whether or not the ids are unique.
\<close>

theorem awaited_inserts_all_stored:
  assumes "storage h = Some s" and "s \<noteq> []" and "storagePath h = Some path"
    and "files fs path = Some t" and "JSON_parse t = Inr (JArr items)"
    and "writable fs path"
    and "list_all (\<lambda>(d, rnd). distinct_keys (JObj d)) calls"
  shows "\<exists>h' fs' t' stored.
           insert_each calls h fs =
             (map (\<lambda>(d, rnd). Inr (set_prop d ''id'' (assigned_id d rnd))) calls, h', fs')
         \<and> files fs' path = Some t'
         \<and> JSON_parse t' = Inr (JArr (items @ stored))
         \<and> length stored = length calls
         \<and> stored = map (\<lambda>(d, rnd). to_json (JObj (set_prop d ''id'' (assigned_id d rnd)))) calls"
proof -
  from insert_each_bound [OF assms] obtain h' t' where
    "insert_each calls h fs =
       (map (\<lambda>(d, rnd). Inr (set_prop d ''id'' (assigned_id d rnd))) calls, h',
        fs\<lparr>files := (files fs)(path \<mapsto> t')\<rparr>)"
    and "JSON_parse t' = Inr (JArr (items @
           map (\<lambda>(d, rnd). to_json (JObj (set_prop d ''id'' (assigned_id d rnd)))) calls))"
    by blast
  then show ?thesis
    by (intro exI [of _ h'] exI [of _ "fs\<lparr>files := (files fs)(path \<mapsto> t')\<rparr>"] exI [of _ t']
        exI [of _ "map (\<lambda>(d, rnd). to_json (JObj (set_prop d ''id'' (assigned_id d rnd)))) calls"])
      simp
qed

theorem awaited_inserts_all_stored_witness:
  "storage users_handle = Some ''users'' \<and> ''users'' \<noteq> []
   \<and> storagePath users_handle = Some ''db/users.json''
   \<and> files (disk ''[]'') ''db/users.json'' = Some ''[]''
   \<and> JSON_parse ''[]'' = Inr (JArr [])
   \<and> writable (disk ''[]'') ''db/users.json''
   \<and> list_all (\<lambda>(d, rnd). distinct_keys (JObj d))
        [([(''id'', JStr ''a'')], (''0.4fzyo82mvyr'', ''0.k1x9qh3u0zd'')),
         ([(''id'', JStr ''b'')], (''0.9c2r7tq1m5x'', ''0.e8w3n6v0b4j''))]
   \<and> (\<exists>h' fs' t'.
         insert_each
           [([(''id'', JStr ''a'')], (''0.4fzyo82mvyr'', ''0.k1x9qh3u0zd'')),
            ([(''id'', JStr ''b'')], (''0.9c2r7tq1m5x'', ''0.e8w3n6v0b4j''))]
           users_handle (disk ''[]'') =
           ([Inr [(''id'', JStr ''a'')], Inr [(''id'', JStr ''b'')]], h', fs')
       \<and> files fs' ''db/users.json'' = Some t'
       \<and> JSON_parse t' = Inr (JArr [JObj [(''id'', JStr ''a'')], JObj [(''id'', JStr ''b'')]]))"
proof -
  let ?calls = "[([(''id'', JStr ''a'')], (''0.4fzyo82mvyr'', ''0.k1x9qh3u0zd'')),
         ([(''id'', JStr ''b'')], (''0.9c2r7tq1m5x'', ''0.e8w3n6v0b4j''))]"
  have a: "storage users_handle = Some ''users''" "''users'' \<noteq> []"
    "storagePath users_handle = Some ''db/users.json''"
    "files (disk ''[]'') ''db/users.json'' = Some ''[]''"
    "JSON_parse ''[]'' = Inr (JArr [])"
    "writable (disk ''[]'') ''db/users.json''"
    "list_all (\<lambda>(d, rnd). distinct_keys (JObj d)) ?calls"
    by (simp_all add: users_handle_def disk_def parse_empty_array)
  from awaited_inserts_all_stored [OF a]
  have "\<exists>h' fs' t'.
         insert_each ?calls users_handle (disk ''[]'') =
           ([Inr [(''id'', JStr ''a'')], Inr [(''id'', JStr ''b'')]], h', fs')
       \<and> files fs' ''db/users.json'' = Some t'
       \<and> JSON_parse t' = Inr (JArr [JObj [(''id'', JStr ''a'')], JObj [(''id'', JStr ''b'')]])"
    by (auto simp: assigned_id_def own_prop_def)
  with a show ?thesis by (simp only: simp_thms)
qed

section \<open>C2: update\<close>

text \<open>
  C2 on the input of the specification's own example: the collection holds
  \<open>[{id:1, name:"John", age:28}]\<close> and the call is \<open>update({name:"John"}, {age:29})\<close>.
  The call returns the patched sequence, but when it returns the file still holds the
  old record and the write is only pending: the \<open>find({age:29})\<close> that follows
  returns nothing. The patched record is in the file only after the event loop has
  performed the write.
\<close>

theorem update_returns_before_store:
  "update [(''name'', JStr ''John'')] [(''age'', JNum 29)] users_handle (disk john_28) =
     (Inr (JArr [JObj [(''id'', JNum 1), (''name'', JStr ''John''), (''age'', JNum 29)]]),
      users_handle,
      (disk john_28)\<lparr>pending := [(''db/users.json'', john_29)]\<rparr>)
   \<and> find_db [(''age'', JNum 29)] users_handle
       ((disk john_28)\<lparr>pending := [(''db/users.json'', john_29)]\<rparr>) =
     (Inr [], users_handle, (disk john_28)\<lparr>pending := [(''db/users.json'', john_29)]\<rparr>)
   \<and> complete_write ((disk john_28)\<lparr>pending := [(''db/users.json'', john_29)]\<rparr>) =
     (disk john_29, None)"
  by (simp add: update_def find_db_def get_current matches_def keys_def own_prop_def
      writeFile_def complete_write_def writeFileSync_def parse_john_28 stringify_john_29
      users_handle_def disk_def)

section \<open>C3: delete\<close>

text \<open>
  C3 on a collection of two records, \<open>[{id:1, age:29}, {id:2, age:30}]\<close>, and the call
  \<open>delete({age:29})\<close>. The call returns exactly the removed record, but when it
  returns the file still holds both records and the write of the kept ones is only
  pending: the \<open>get()\<close> that follows still contains the removed record.
\<close>

theorem delete_returns_before_store:
  "delete [(''age'', JNum 29)] users_handle (disk two_records) =
     (Inr [JObj [(''id'', JNum 1), (''age'', JNum 29)]],
      users_handle,
      (disk two_records)\<lparr>pending := [(''db/users.json'', second_record)]\<rparr>)
   \<and> get [] users_handle ((disk two_records)\<lparr>pending := [(''db/users.json'', second_record)]\<rparr>) =
     (Inr (JArr [JObj [(''id'', JNum 1), (''age'', JNum 29)],
                 JObj [(''id'', JNum 2), (''age'', JNum 30)]]),
      users_handle,
      (disk two_records)\<lparr>pending := [(''db/users.json'', second_record)]\<rparr>)"
  by (simp add: delete_def get_current matches_def keys_def own_prop_def
      writeFile_def parse_two_records stringify_second_record users_handle_def disk_def)

section \<open>C6: a failed insert\<close>

text \<open>
  C6 on a handle that has inserted nothing yet. When the load fails (the file does not
  hold JSON) and when the store fails (the file cannot be written), \<open>insert\<close> throws
  and the file is as it was, but the last insert id has changed: it was \<open>null\<close> and is
  now the id generated for the record that was not inserted, and \<open>insertId()\<close>
  returns it.
\<close>

theorem failed_insert_sets_lastInsertId:
  "lastInsertId users_handle = JNull
   \<and> insert_db [(''name'', JStr ''a'')] (''0.4fzyo82mvyr'', ''0.k1x9qh3u0zd'')
       users_handle (disk ''[{'') =
     (Inl SyntaxError, users_handle\<lparr>lastInsertId := JStr ''4fzyo82mvyrk1x9qh3u0zd''\<rparr>,
      disk ''[{'')
   \<and> insert_db [(''name'', JStr ''a'')] (''0.4fzyo82mvyr'', ''0.k1x9qh3u0zd'')
       users_handle (readonly_disk ''[]'') =
     (Inl IOError, users_handle\<lparr>lastInsertId := JStr ''4fzyo82mvyrk1x9qh3u0zd''\<rparr>,
      readonly_disk ''[]'')
   \<and> insertId (users_handle\<lparr>lastInsertId := JStr ''4fzyo82mvyrk1x9qh3u0zd''\<rparr>) =
     Inr (JStr ''4fzyo82mvyrk1x9qh3u0zd'')"
  by (simp add: insert_db_def insert_begin_def insert_resume_def get_current assigned_id_def
      generated_id_def substring_def own_prop_def writeFileSync_def insertId_def
      parse_malformed parse_empty_array users_handle_def disk_def readonly_disk_def Let_def)

section \<open>C7: a write that fails in update or delete\<close>

text \<open>
  C7 on a collection file that cannot be written. \<open>update\<close> and \<open>delete\<close> return
  their results as if the write had been done: no error reaches the caller. The write
  is still pending when they return; when the event loop performs it, it fails, the
  file is unchanged, and the error is thrown from the callback into the event loop.
\<close>

theorem write_failure_reaches_no_caller:
  "update [] [(''age'', JNum 29)] users_handle (readonly_disk one_record) =
     (Inr (JArr [JObj [(''id'', JNum 1), (''age'', JNum 29)]]), users_handle,
      (readonly_disk one_record)\<lparr>pending := [(''db/users.json'', one_record_29)]\<rparr>)
   \<and> complete_write
       ((readonly_disk one_record)\<lparr>pending := [(''db/users.json'', one_record_29)]\<rparr>) =
     (readonly_disk one_record, Some IOError)
   \<and> delete [] users_handle (readonly_disk one_record) =
     (Inr [JObj [(''id'', JNum 1), (''age'', JNum 28)]], users_handle,
      (readonly_disk one_record)\<lparr>pending := [(''db/users.json'', ''[]'')]\<rparr>)
   \<and> complete_write ((readonly_disk one_record)\<lparr>pending := [(''db/users.json'', ''[]'')]\<rparr>) =
     (readonly_disk one_record, Some IOError)"
  by (simp add: update_def delete_def get_current matches_def keys_def own_prop_def
      writeFile_def complete_write_def writeFileSync_def parse_one_record
      stringify_one_record_29 stringify_empty_array users_handle_def readonly_disk_def)

end
